theory Spec2Isabelle
  imports Complex_Main
begin

section \<open>Strings and data model\<close>

text \<open>
  A JavaScript string is a sequence of UTF-16 code units. The input parser has to
  recognise Cyrillic nouns and Unicode white space, so strings are lists of code units
  (natural numbers); \<open>ascii\<close> embeds a literal of the source written in ASCII.
\<close>

type_synonym jsstring = "nat list"

definition ascii :: "string \<Rightarrow> jsstring" where
  "ascii s = map of_char s"

text \<open>
  The task object of the backend as the component consumes it. \<open>created_at\<close> is the value
  of \<open>new Date(task.created_at)\<close>, in milliseconds since the epoch; the status is the
  string the server sent.
\<close>

record search_result =
  result_id :: jsstring
  title :: jsstring
  source_url :: jsstring
  pdf_file :: "jsstring option"

record task =
  task_id :: jsstring
  task_keyword :: jsstring
  task_status :: jsstring
  created_at :: int
  task_results :: "search_result list"
  error_message :: "jsstring option"

text \<open>A rejected request: \<open>err.response?.data?.detail\<close> and \<open>err.message\<close>.\<close>

record api_error =
  detail :: "jsstring option"
  message :: "jsstring option"

text \<open>The requests of \<open>services/api.js\<close> that a handler issues.\<close>

datatype api_call =
  CreateSearchTask jsstring nat
  | GetSearchTask jsstring
  | GetAllSearchTasks
  | UpdateTaskStatus jsstring jsstring

fun is_write :: "api_call \<Rightarrow> bool" where
  "is_write (CreateSearchTask k n) = True"
| "is_write (UpdateTaskStatus i s) = True"
| "is_write (GetSearchTask i) = False"
| "is_write GetAllSearchTasks = False"

text \<open>
  The answer of \<open>GET /api/tasks/\<close>: a bare array, or an object whose \<open>results\<close> field
  may be missing.
\<close>

datatype list_payload = TaskArray "task list" | Envelope "task list option"

datatype view = ActiveView | HistoryView

text \<open>
  The state of the \<open>NewsSearch\<close> component: its \<open>useState\<close> cells and its two refs.
  \<open>pollingIntervalRef\<close> holds the live interval timer; the model keeps the id that
  timer polls, \<open>None\<close> for \<open>null\<close>.
\<close>

record state =
  keyword :: jsstring
  taskId :: "jsstring option"
  taskKeyword :: "jsstring option"
  status :: "jsstring option"
  results :: "search_result list"
  error :: "jsstring option"
  isLoading :: bool
  activeView :: view
  activeTasks :: "task list"
  historyTasks :: "task list"
  expandedHistoryTaskId :: "jsstring option"
  historyPage :: int
  removedTaskIds :: "jsstring set"
  pollingInterval :: "jsstring option"

section \<open>TaskListSynchronizer: \<open>loadTasks\<close>\<close>

definition STUCK_TASK_TIMEOUT :: int where
  "STUCK_TASK_TIMEOUT = 15 * 60 * 1000"

definition is_in_flight :: "task \<Rightarrow> bool" where
  "is_in_flight t \<longleftrightarrow>
     task_status t = ascii ''pending'' \<or> task_status t = ascii ''processing''"

definition is_terminal :: "task \<Rightarrow> bool" where
  "is_terminal t \<longleftrightarrow>
     task_status t = ascii ''completed'' \<or> task_status t = ascii ''failed''"

text \<open>The predicate of the first \<open>tasksArray.filter\<close>: the Active view.\<close>

definition active_pred :: "jsstring set \<Rightarrow> int \<Rightarrow> task \<Rightarrow> bool" where
  "active_pred removed now t =
     (if task_id t \<in> removed then False
      else if is_in_flight t then
        (let taskAge = now - created_at t
         in if taskAge > STUCK_TASK_TIMEOUT then False else True)
      else False)"

text \<open>The predicate of the second filter: the stuck tasks.\<close>

definition stuck_pred :: "jsstring set \<Rightarrow> int \<Rightarrow> task \<Rightarrow> bool" where
  "stuck_pred removed now t =
     (if task_id t \<in> removed then False
      else if is_in_flight t then
        (let taskAge = now - created_at t in taskAge > STUCK_TASK_TIMEOUT)
      else False)"

definition stuckTasks :: "jsstring set \<Rightarrow> int \<Rightarrow> task list \<Rightarrow> task list" where
  "stuckTasks removed now tasksArray =
     map (\<lambda>t. t\<lparr>task_status := ascii ''failed''\<rparr>) (filter (stuck_pred removed now) tasksArray)"

text \<open>
  A JavaScript \<open>Map\<close> keeps its keys in insertion order; \<open>set\<close> on a key that is present
  replaces the value where it stands, \<open>set\<close> on a new key appends.
\<close>

fun map_set :: "'k \<Rightarrow> 'v \<Rightarrow> ('k \<times> 'v) list \<Rightarrow> ('k \<times> 'v) list" where
  "map_set k v [] = [(k, v)]"
| "map_set k v (p # ps) = (if fst p = k then (k, v) # ps else p # map_set k v ps)"

text \<open>\<open>tasks.forEach(task => historyMap.set(task.id, task))\<close>\<close>

definition set_each :: "task list \<Rightarrow> (jsstring \<times> task) list \<Rightarrow> (jsstring \<times> task) list" where
  "set_each tasks historyMap = fold (\<lambda>t m. map_set (task_id t) t m) tasks historyMap"

definition map_values :: "('k \<times> 'v) list \<Rightarrow> 'v list" where
  "map_values m = map snd m"

text \<open>
  \<open>sort((a, b) => new Date(b.created_at) - new Date(a.created_at))\<close>: newest first, and,
  the sort of an array being stable, entries of equal date in their former order.
\<close>

definition sort_newest_first :: "task list \<Rightarrow> task list" where
  "sort_newest_first ts = sort_key (\<lambda>t. - created_at t) ts"

definition build_history :: "task list \<Rightarrow> jsstring set \<Rightarrow> int \<Rightarrow> task list \<Rightarrow> task list" where
  "build_history prev removed now tasksArray =
     (let historyMap = [];
          historyMap = set_each (filter is_terminal prev) historyMap;
          historyMap = set_each (filter is_terminal tasksArray) historyMap;
          historyMap = set_each (stuckTasks removed now tasksArray) historyMap
      in sort_newest_first (map_values historyMap))"

definition tasks_of_payload :: "list_payload \<Rightarrow> task list" where
  "tasks_of_payload tasks =
     (case tasks of
        TaskArray ts \<Rightarrow> ts
      | Envelope r \<Rightarrow> (case r of Some ts \<Rightarrow> ts | None \<Rightarrow> []))"

text \<open>
  One pass of \<open>loadTasks\<close>, given the time and the answer of \<open>getAllSearchTasks\<close>. It
  returns the new state and the requests it issued. A failed request is logged only.

  \<open>loadTasks\<close> is created anew at every render and closes over the \<open>historyTasks\<close> of
  that render: \<open>seen\<close> is the value its closure holds. A timer keeps the \<open>loadTasks\<close> of
  the render whose effect installed it (at mount, and at every change of \<open>activeView\<close>),
  and a poll keeps the one of the render that submitted the search. The removal ledger is
  a ref and is read as it is now; \<open>setActiveTasks\<close> and \<open>setHistoryTasks\<close> write the
  current state.
\<close>

definition loadTasks ::
  "task list \<Rightarrow> state \<Rightarrow> int \<Rightarrow> api_error + list_payload \<Rightarrow> state \<times> api_call list" where
  "loadTasks seen st now response =
     (case response of
        Inl err \<Rightarrow> (st, [GetAllSearchTasks])
      | Inr tasks \<Rightarrow>
          (let tasksArray = tasks_of_payload tasks;
               active = filter (active_pred (removedTaskIds st) now) tasksArray;
               history = build_history seen (removedTaskIds st) now tasksArray
           in (st\<lparr>activeTasks := active, historyTasks := history\<rparr>, [GetAllSearchTasks])))"

text \<open>The history map of a pass, before it is sorted, and two notions to reason about it.\<close>

definition history_map :: "task list \<Rightarrow> jsstring set \<Rightarrow> int \<Rightarrow> task list \<Rightarrow> (jsstring \<times> task) list" where
  "history_map prev removed now tasksArray =
     set_each (filter is_terminal tasksArray @ stuckTasks removed now tasksArray)
       (set_each (filter is_terminal prev) [])"

definition keyed_by_id :: "(jsstring \<times> task) list \<Rightarrow> bool" where
  "keyed_by_id m \<longleftrightarrow> list_all (\<lambda>p. task_id (snd p) = fst p) m"

definition upd_each :: "task list \<Rightarrow> (jsstring \<rightharpoonup> task) \<Rightarrow> (jsstring \<rightharpoonup> task)" where
  "upd_each ts f = fold (\<lambda>t g. g(task_id t \<mapsto> t)) ts f"

section \<open>InputParser: the first part of \<open>handleSearch\<close>\<close>

text \<open>
  White space as \<open>\s\<close> and \<open>String.prototype.trim\<close> see it: the WhiteSpace and
  LineTerminator code units of ECMAScript.
\<close>

definition is_space :: "nat \<Rightarrow> bool" where
  "is_space c \<longleftrightarrow>
     c \<in> {9, 10, 11, 12, 13, 32, 160, 5760, 8232, 8233, 8239, 8287, 12288, 65279}
     \<or> (8192 \<le> c \<and> c \<le> 8202)"

definition is_digit :: "nat \<Rightarrow> bool" where
  "is_digit c \<longleftrightarrow> 48 \<le> c \<and> c \<le> 57"

definition comma :: nat where
  "comma = 44"

definition trim :: "jsstring \<Rightarrow> jsstring" where
  "trim s = rev (dropWhile is_space (rev (dropWhile is_space s)))"

text \<open>\<open>s.split(',')\<close>: the pieces between the separators; one piece for the empty string.\<close>

fun split_on :: "nat \<Rightarrow> jsstring \<Rightarrow> jsstring list" where
  "split_on sep [] = [[]]"
| "split_on sep (c # cs) =
     (if c = sep then [] # split_on sep cs
      else (case split_on sep cs of
              part # parts \<Rightarrow> (c # part) # parts
            | [] \<Rightarrow> [[c]]))"

text \<open>\<open>s.split(/\s+/)\<close>: a maximal run of white space is one separator.\<close>

fun split_ws :: "jsstring \<Rightarrow> jsstring list" where
  "split_ws [] = [[]]"
| "split_ws (c # cs) =
     (if is_space c then
        (case cs of
           d # ds \<Rightarrow> if is_space d then split_ws cs else [] # split_ws cs
         | [] \<Rightarrow> [[], []])
      else (case split_ws cs of
              part # parts \<Rightarrow> (c # part) # parts
            | [] \<Rightarrow> [[c]]))"

text \<open>\<open>parts.join(sep)\<close>\<close>

fun join :: "jsstring \<Rightarrow> jsstring list \<Rightarrow> jsstring" where
  "join sep [] = []"
| "join sep [p] = p"
| "join sep (p # q # ps) = p @ sep @ join sep (q # ps)"

text \<open>
  The case folding of a regular expression with the flag \<open>i\<close> and without \<open>u\<close>: a code
  unit goes to its upper case. The function is exact on every code unit whose upper case
  is a letter of the pattern below (Latin and Cyrillic small letters, and the three
  Cyrillic Extended-C variants of es and te); this is all a match against the pattern
  compares.
\<close>

definition canonicalize :: "nat \<Rightarrow> nat" where
  "canonicalize c =
     (if 97 \<le> c \<and> c \<le> 122 then c - 32
      else if 1072 \<le> c \<and> c \<le> 1103 then c - 32
      else if c = 7299 then 1057
      else if c = 7300 \<or> c = 7301 then 1058
      else c)"

text \<open>
  The alternatives of the pattern, in its order: three Russian forms of the noun (in code
  units), then \<open>article\<close> and \<open>articles\<close>.
\<close>

definition count_nouns :: "jsstring list" where
  "count_nouns =
     [[1089, 1090, 1072, 1090, 1100, 1080],
      [1089, 1090, 1072, 1090, 1077, 1081],
      [1089, 1090, 1072, 1090, 1100, 1103],
      ascii ''article'',
      ascii ''articles'']"

definition ci_starts_with :: "jsstring \<Rightarrow> jsstring \<Rightarrow> bool" where
  "ci_starts_with p s \<longleftrightarrow>
     length p \<le> length s \<and> map canonicalize (take (length p) s) = map canonicalize p"

text \<open>
  \<open>s.match(/^(\d+)\s*(?:...)?\s*$/i)\<close>: the first group when the string matches, \<open>None\<close>
  for \<open>null\<close>. The group is the whole run of leading digits (a shorter run would leave a
  digit where the pattern allows white space, a noun or the end). After the digits and
  the white space that follows them the string either ends, or is one of the nouns
  followed by white space only.
\<close>

definition match_count :: "jsstring \<Rightarrow> jsstring option" where
  "match_count s =
     (let digits = takeWhile is_digit s;
          rest = dropWhile is_space (dropWhile is_digit s)
      in if digits = [] then None
         else if rest = []
              \<or> list_ex (\<lambda>noun. ci_starts_with noun rest
                                \<and> list_all is_space (drop (length noun) rest)) count_nouns
         then Some digits
         else None)"

text \<open>
  \<open>parseInt(digits, 10)\<close> on a string of decimal digits. The number is compared with 0 and
  20 only, which the rounding of a long digit string to a double does not change.
\<close>

definition parseInt :: "jsstring \<Rightarrow> nat" where
  "parseInt digits = foldl (\<lambda>n d. 10 * n + (d - 48)) 0 digits"

datatype validation_error = EnterKeyword | EnterValidKeyword

fun validation_text :: "validation_error \<Rightarrow> jsstring" where
  "validation_text EnterKeyword = ascii ''Please enter a keyword''"
| "validation_text EnterValidKeyword = ascii ''Please enter a valid keyword''"

text \<open>
  The lines of \<open>handleSearch\<close> between the cancel branch and the submission: from the
  text of the input field to \<open>(searchKeyword, articleCount)\<close>, or to the error shown.
\<close>

definition parse_input :: "jsstring \<Rightarrow> validation_error + jsstring \<times> nat" where
  "parse_input raw =
     (if trim raw = [] then Inl EnterKeyword
      else
        (let input = trim raw;
             parsed =
               (if comma \<in> set input then
                  (case map trim (split_on comma input) of
                     first # second # others \<Rightarrow>
                       (let searchKeyword = trim first;
                            countPart = trim (join [comma] (second # others))
                        in case match_count countPart of
                             Some digits \<Rightarrow>
                               (let parsedCount = parseInt digits
                                in if parsedCount > 0 \<and> parsedCount \<le> 20
                                   then (searchKeyword, parsedCount)
                                   else (searchKeyword, 3))
                           | None \<Rightarrow> (searchKeyword, 3))
                   | _ \<Rightarrow> (input, 3))
                else
                  (let parts = split_ws input
                   in if length parts > 1 then
                        (let lastPart = last parts
                         in case match_count lastPart of
                              Some digits \<Rightarrow>
                                (let parsedCount = parseInt digits
                                 in if parsedCount > 0 \<and> parsedCount \<le> 20
                                    then (trim (join [32] (butlast parts)), parsedCount)
                                    else (input, 3))
                            | None \<Rightarrow> (input, 3))
                      else (input, 3)))
         in if fst parsed = [] then Inl EnterValidKeyword else Inr parsed))"

text \<open>
  Two notions to state the rules of the parser. \<open>same_letter c d\<close>: the code unit \<open>c\<close> is
  the small letter \<open>d\<close> of the pattern when case is ignored, that is \<open>d\<close> itself, its
  capital (32 below, for the Latin and the Cyrillic letters of the nouns), or one of the
  variant forms of Cyrillic es and te. \<open>spaced words seps\<close>: the words, written with the
  given runs of white space between them.
\<close>

definition same_letter :: "nat \<Rightarrow> nat \<Rightarrow> bool" where
  "same_letter c d \<longleftrightarrow>
     c = d \<or> c + 32 = d \<or> (d = 1089 \<and> c = 7299) \<or> (d = 1090 \<and> (c = 7300 \<or> c = 7301))"

fun spaced :: "jsstring list \<Rightarrow> jsstring list \<Rightarrow> jsstring" where
  "spaced [] seps = []"
| "spaced [w] seps = w"
| "spaced (w # v # ws) [] = w @ spaced (v # ws) []"
| "spaced (w # v # ws) (s # seps) = w @ s @ spaced (v # ws) seps"

section \<open>JobSubmitter and JobPoller: \<open>handleSearch\<close>, \<open>cancelSearch\<close>, \<open>pollTaskStatus\<close>\<close>

text \<open>
  What the backend answers to each request of a handler, and the clock a pass reads.
  A handler is a function of the state and of these answers; the \<open>setState\<close> calls are
  applied in the order of the source. An event handler (\<open>handleSearch\<close>, \<open>cancelSearch\<close>)
  belongs to the render on screen, so what its closure holds is the state it starts from.
\<close>

record network =
  clock :: int
  create_response :: "api_error + task"
  get_response :: "api_error + task"
  list_response :: "api_error + list_payload"
  patch_response :: "api_error + task"

text \<open>\<open>a || b\<close> on a string that may be missing: the empty string is falsy too.\<close>

definition or_else :: "jsstring option \<Rightarrow> jsstring \<Rightarrow> jsstring" where
  "or_else a b = (case a of Some s \<Rightarrow> if s = [] then b else s | None \<Rightarrow> b)"

text \<open>\<open>err.response?.data?.detail || err.message || fallback\<close>\<close>

definition error_text :: "api_error \<Rightarrow> jsstring \<Rightarrow> jsstring" where
  "error_text err fallback = or_else (detail err) (or_else (message err) fallback)"

definition initial_state :: state where
  "initial_state =
     \<lparr>keyword = [], taskId = None, taskKeyword = None, status = None, results = [],
      error = None, isLoading = False, activeView = ActiveView, activeTasks = [],
      historyTasks = [], expandedHistoryTaskId = None, historyPage = 1,
      removedTaskIds = {}, pollingInterval = None\<rparr>"

definition in_progress :: "state \<Rightarrow> bool" where
  "in_progress st \<longleftrightarrow>
     isLoading st \<or> status st = Some (ascii ''processing'') \<or> status st = Some (ascii ''pending'')"

definition cancelSearch :: "state \<Rightarrow> network \<Rightarrow> state \<times> api_call list" where
  "cancelSearch st net =
     (case taskId st of
        None \<Rightarrow> (st, [])
      | Some i \<Rightarrow>
          if i = [] then (st, [])
          else
            (let st1 = st\<lparr>pollingInterval := None\<rparr>;
                 st2 = st1\<lparr>isLoading := False, status := Some (ascii ''failed''),
                          taskId := None, taskKeyword := None, results := []\<rparr>;
                 (st3, calls) = loadTasks (historyTasks st) st2 (clock net) (list_response net)
             in (st3, UpdateTaskStatus i (ascii ''failed'') # calls)))"

text \<open>
  \<open>startPolling\<close>: the first \<open>pollTaskStatus\<close> sends its request at once (its answer is
  handled by a later step), and the interval timer is installed.
\<close>

definition startPolling :: "state \<Rightarrow> jsstring \<Rightarrow> state \<times> api_call list" where
  "startPolling st i = (st\<lparr>pollingInterval := Some i\<rparr>, [GetSearchTask i])"

definition handleSearch :: "state \<Rightarrow> network \<Rightarrow> state \<times> api_call list" where
  "handleSearch st net =
     (if in_progress st then cancelSearch st net
      else
        (case parse_input (keyword st) of
           Inl e \<Rightarrow> (st\<lparr>error := Some (validation_text e)\<rparr>, [])
         | Inr (searchKeyword, articleCount) \<Rightarrow>
             (let st1 = st\<lparr>activeView := ActiveView, historyPage := 1, isLoading := True,
                           error := None, status := None, results := [], taskId := None,
                           taskKeyword := None, pollingInterval := None\<rparr>
              in case create_response net of
                   Inr taskData \<Rightarrow>
                     (let st2 = st1\<lparr>taskId := Some (task_id taskData),
                                     taskKeyword := Some (task_keyword taskData),
                                     status := Some (task_status taskData),
                                     activeTasks := activeTasks st1 @ [taskData]\<rparr>;
                          (st3, calls) = startPolling st2 (task_id taskData)
                      in (st3, CreateSearchTask searchKeyword articleCount # calls))
                 | Inl err \<Rightarrow>
                     (st1\<lparr>error := Some (error_text err (ascii ''Failed to create search task'')),
                          isLoading := False\<rparr>,
                      [CreateSearchTask searchKeyword articleCount]))))"

text \<open>
  The update of History when a poll sees a terminal status: replace the entry of that id,
  or add the task and sort.
\<close>

definition add_to_history :: "jsstring \<Rightarrow> task \<Rightarrow> task list \<Rightarrow> task list" where
  "add_to_history i taskData prev =
     (if list_ex (\<lambda>t. task_id t = i) prev
      then map (\<lambda>t. if task_id t = i then taskData else t) prev
      else sort_newest_first (taskData # prev))"

text \<open>
  One run of \<open>pollTaskStatus(id)\<close>. \<open>{...task, ...taskData}\<close> is \<open>taskData\<close>, both objects
  having the fields of a task. After a failed status the reload is left to a timer
  (300 ms), so it is not part of this step.

  \<open>startPolling\<close> is called by \<open>handleSearch\<close>, so every run of the poll is the
  \<open>pollTaskStatus\<close> of the render that submitted the search: \<open>render\<close> is the state of
  that render. Its closure holds that render's \<open>taskId\<close> and \<open>loadTasks\<close>; the functional
  updates (\<open>prev => ...\<close>) and the other setters act on the current state \<open>st\<close>.
\<close>

definition pollTaskStatus ::
  "state \<Rightarrow> state \<Rightarrow> jsstring \<Rightarrow> network \<Rightarrow> state \<times> api_call list" where
  "pollTaskStatus render st i net =
     (case get_response net of
        Inl err \<Rightarrow>
          (st\<lparr>pollingInterval := None, isLoading := False,
              error := Some (error_text err (ascii ''Failed to fetch task status''))\<rparr>,
           [GetSearchTask i])
      | Inr taskData \<Rightarrow>
          (let st1 = st\<lparr>status := Some (task_status taskData)\<rparr>;
               st2 = (if taskId render = Some i
                      then st1\<lparr>taskKeyword := Some (task_keyword taskData)\<rparr> else st1);
               st3 = st2\<lparr>activeTasks :=
                        map (\<lambda>t. if task_id t = i then taskData else t) (activeTasks st2)\<rparr>
           in if task_status taskData = ascii ''completed'' then
                (let st4 = st3\<lparr>pollingInterval := None, isLoading := False\<rparr>;
                     st5 = (if taskId render = Some i
                            then st4\<lparr>activeTasks :=
                                   map (\<lambda>t. if task_id t = i
                                             then taskData\<lparr>task_status := ascii ''completed''\<rparr>
                                             else t) (activeTasks st4)\<rparr>
                            else st4\<lparr>activeTasks :=
                                   filter (\<lambda>t. task_id t \<noteq> i) (activeTasks st4)\<rparr>);
                     st6 = st5\<lparr>historyTasks := add_to_history i taskData (historyTasks st5)\<rparr>;
                     (st7, calls) = loadTasks (historyTasks render) st6 (clock net) (list_response net)
                 in (st7\<lparr>results := (if task_results taskData \<noteq> [] then task_results taskData else []),
                        activeView := ActiveView\<rparr>,
                     GetSearchTask i # calls))
              else if task_status taskData = ascii ''failed'' then
                (let st4 = st3\<lparr>pollingInterval := None, isLoading := False\<rparr>;
                     st5 = (if taskId render = Some i
                            then st4\<lparr>activeTasks :=
                                   map (\<lambda>t. if task_id t = i
                                             then taskData\<lparr>task_status := ascii ''failed''\<rparr>
                                             else t) (activeTasks st4)\<rparr>
                            else st4\<lparr>activeTasks :=
                                   filter (\<lambda>t. task_id t \<noteq> i) (activeTasks st4)\<rparr>);
                     st6 = st5\<lparr>historyTasks := add_to_history i taskData (historyTasks st5)\<rparr>;
                     errorMsg = (case error_message taskData of
                                   Some m \<Rightarrow>
                                     if m = []
                                     then ascii ''Search task failed. Please check Celery worker logs or try again.''
                                     else ascii ''Search task failed: '' @ m
                                 | None \<Rightarrow>
                                     ascii ''Search task failed. Please check Celery worker logs or try again.'')
                 in (st6\<lparr>error := Some errorMsg\<rparr>, [GetSearchTask i]))
              else (st3, [GetSearchTask i])))"

section \<open>HistoryPaginator\<close>

text \<open>\<open>Math.ceil(historyTasks.length / 3)\<close>\<close>

definition ceil_div3 :: "nat \<Rightarrow> int" where
  "ceil_div3 n = \<lceil>real n / 3\<rceil>"

text \<open>\<open>maxPage || 1\<close>: the page the effect resets to.\<close>

definition max_page_or_1 :: "nat \<Rightarrow> int" where
  "max_page_or_1 n = (let maxPage = ceil_div3 n in if maxPage = 0 then 1 else maxPage)"

text \<open>
  The effect that runs when the length of History, the view or the page changes.
\<close>

definition reset_page_effect :: "state \<Rightarrow> state" where
  "reset_page_effect st =
     (if activeView st = HistoryView \<and> length (historyTasks st) > 0 then
        (let maxPage = ceil_div3 (length (historyTasks st))
         in if historyPage st > maxPage
            then st\<lparr>historyPage := max_page_or_1 (length (historyTasks st))\<rparr>
            else st)
      else st)"

text \<open>
  The two page buttons are rendered in the History view when History has more than three
  entries; a disabled button does not fire.
\<close>

definition pager_shown :: "state \<Rightarrow> bool" where
  "pager_shown st \<longleftrightarrow>
     activeView st = HistoryView \<and> length (historyTasks st) \<noteq> 0 \<and> length (historyTasks st) > 3"

definition previous_page :: "state \<Rightarrow> state" where
  "previous_page st =
     (if pager_shown st \<and> \<not> historyPage st = 1
      then st\<lparr>historyPage := max 1 (historyPage st - 1)\<rparr>
      else st)"

definition next_page :: "state \<Rightarrow> state" where
  "next_page st =
     (if pager_shown st \<and> \<not> historyPage st \<ge> ceil_div3 (length (historyTasks st))
      then st\<lparr>historyPage := min (ceil_div3 (length (historyTasks st))) (historyPage st + 1)\<rparr>
      else st)"

text \<open>The History tab: the view changes and the page goes back to 1.\<close>

definition open_history :: "state \<Rightarrow> state" where
  "open_history st = st\<lparr>activeView := HistoryView, historyPage := 1\<rparr>"

section \<open>PDF resolution: \<open>getPdfUrl\<close>\<close>


definition starts_with :: "jsstring \<Rightarrow> jsstring \<Rightarrow> bool" where
  "starts_with s p \<longleftrightarrow> take (length p) s = p"





section \<open>Example data\<close>

definition example_task :: "string \<Rightarrow> string \<Rightarrow> int \<Rightarrow> task" where
  "example_task i s c =
     \<lparr>task_id = ascii i, task_keyword = ascii ''Rome'', task_status = ascii s,
      created_at = c, task_results = [], error_message = None\<rparr>"

definition example_result :: search_result where
  "example_result =
     \<lparr>result_id = ascii ''r1'', title = ascii ''Rome today'',
      source_url = ascii ''https://www.radiozet.pl/rome'', pdf_file = Some (ascii ''pdfs/rome.pdf'')\<rparr>"

text \<open>A user who looks at the results of the finished job \<open>a\<close> and has typed a new query.\<close>

definition viewing_state :: state where
  "viewing_state =
     initial_state\<lparr>keyword := ascii ''Rome, 2'', taskId := Some (ascii ''a''),
       taskKeyword := Some (ascii ''Chopin''), status := Some (ascii ''completed''),
       results := [example_result], activeView := HistoryView,
       historyTasks := [example_task ''a'' ''completed'' 0]\<rparr>"

text \<open>The job \<open>a\<close> is being polled.\<close>

definition polling_state :: state where
  "polling_state =
     initial_state\<lparr>taskId := Some (ascii ''a''), taskKeyword := Some (ascii ''Rome''),
       status := Some (ascii ''processing''), isLoading := True,
       activeTasks := [example_task ''a'' ''processing'' 0],
       pollingInterval := Some (ascii ''a'')\<rparr>"

text \<open>
  A run of the component. The user opens the History view while History is still empty,
  so the timer of that view holds \<open>historyTasks = []\<close>. Its first pass fetches four
  finished jobs, the user goes to page 2, and its next pass fetches an empty collection.
  The effect that resets the page runs after each change of History.
\<close>

definition four_finished :: "task list" where
  "four_finished =
     [example_task ''a'' ''completed'' 4, example_task ''b'' ''completed'' 3,
      example_task ''c'' ''failed'' 2, example_task ''d'' ''completed'' 1]"

definition run_opened :: state where
  "run_opened = open_history initial_state"

definition run_filled :: state where
  "run_filled =
     reset_page_effect (fst (loadTasks (historyTasks run_opened) run_opened 1000
       (Inr (TaskArray four_finished))))"

definition run_paged :: state where
  "run_paged = next_page run_filled"

definition run_emptied :: state where
  "run_emptied =
     reset_page_effect (fst (loadTasks (historyTasks run_opened) run_paged 6000
       (Inr (TaskArray []))))"

text \<open>A backend that is down: every request is rejected.\<close>

definition network_error :: api_error where
  "network_error = \<lparr>detail = None, message = Some (ascii ''Network Error'')\<rparr>"

definition failing_network :: network where
  "failing_network =
     \<lparr>clock = 0, create_response = Inl network_error, get_response = Inl network_error,
      list_response = Inl network_error, patch_response = Inl network_error\<rparr>"

section \<open>Facts about the history map\<close>

lemma map_set_keys: "fst ` set (map_set k v m) = insert k (fst ` set m)"
  by (induction m) auto

lemma set_each_keys: "fst ` set (set_each ts m) = fst ` set m \<union> task_id ` set ts"
  unfolding set_each_def
  by (induction ts arbitrary: m) (auto simp: map_set_keys)

lemma set_each_append: "set_each (xs @ ys) m = set_each ys (set_each xs m)"
  by (simp add: set_each_def)

lemma map_set_keyed: "keyed_by_id m \<Longrightarrow> keyed_by_id (map_set (task_id t) t m)"
  unfolding keyed_by_id_def
  by (induction m) auto

lemma set_each_keyed: "keyed_by_id m \<Longrightarrow> keyed_by_id (set_each ts m)"
  unfolding set_each_def
  by (induction ts arbitrary: m) (auto simp: map_set_keyed)

lemma keyed_ids: "keyed_by_id m \<Longrightarrow> task_id ` set (map_values m) = fst ` set m"
  unfolding keyed_by_id_def map_values_def list_all_iff
  by (force simp: image_iff)

lemma keyed_map_values: "keyed_by_id m \<Longrightarrow> map task_id (map_values m) = map fst m"
  by (simp add: keyed_by_id_def map_values_def list_all_iff)

lemma keyed_pairs: "keyed_by_id m \<Longrightarrow> map (\<lambda>t. (task_id t, t)) (map_values m) = m"
  by (induction m) (auto simp: keyed_by_id_def map_values_def)

lemma map_of_map_set: "map_of (map_set k v m) = (map_of m)(k \<mapsto> v)"
  by (induction m) auto

lemma map_of_set_each: "map_of (set_each ts m) = upd_each ts (map_of m)"
  unfolding set_each_def upd_each_def
  by (induction ts arbitrary: m) (simp_all add: map_of_map_set)

lemma distinct_map_set: "distinct (map fst m) \<Longrightarrow> distinct (map fst (map_set k v m))"
  by (induction m) (auto simp: map_set_keys)

lemma distinct_set_each: "distinct (map fst m) \<Longrightarrow> distinct (map fst (set_each ts m))"
  unfolding set_each_def
  by (induction ts arbitrary: m) (simp_all add: distinct_map_set)

lemma map_set_present: "k \<in> fst ` set m \<Longrightarrow> map fst (map_set k v m) = map fst m"
  by (induction m) auto

lemma set_each_present:
  "task_id ` set ts \<subseteq> fst ` set m \<Longrightarrow> map fst (set_each ts m) = map fst m"
  unfolding set_each_def
proof (induction ts arbitrary: m)
  case Nil
  then show ?case by simp
next
  case (Cons t ts)
  have "fst ` set (map_set (task_id t) t m) = fst ` set m"
    using Cons.prems by (auto simp: map_set_keys)
  with Cons show ?case by (simp add: map_set_present)
qed

lemma map_set_fresh: "k \<notin> fst ` set m \<Longrightarrow> map_set k v m = m @ [(k, v)]"
  by (induction m) auto

lemma set_each_fresh:
  "distinct (map task_id ts) \<Longrightarrow> task_id ` set ts \<inter> fst ` set m = {} \<Longrightarrow>
   set_each ts m = m @ map (\<lambda>t. (task_id t, t)) ts"
  unfolding set_each_def
proof (induction ts arbitrary: m)
  case Nil
  then show ?case by simp
next
  case (Cons t ts)
  have a: "task_id t \<notin> fst ` set m"
    using Cons.prems by auto
  have b: "task_id ` set ts \<inter> fst ` set (m @ [(task_id t, t)]) = {}"
    using Cons.prems by auto
  show ?case
    using Cons.IH [OF _ b] Cons.prems(1) by (simp add: map_set_fresh [OF a])
qed

lemma map_set_values: "p \<in> set (map_set k v m) \<Longrightarrow> p = (k, v) \<or> p \<in> set m"
  by (induction m) (auto split: if_splits)

lemma set_each_values:
  "p \<in> set (set_each ts m) \<Longrightarrow> snd p \<in> set ts \<or> p \<in> set m"
  unfolding set_each_def
proof (induction ts arbitrary: m)
  case Nil
  then show ?case by simp
next
  case (Cons t ts)
  from Cons.prems have "p \<in> set (fold (\<lambda>t. map_set (task_id t) t) ts (map_set (task_id t) t m))"
    by simp
  then have "snd p \<in> set ts \<or> p \<in> set (map_set (task_id t) t m)"
    by (rule Cons.IH)
  then show ?case by (auto dest: map_set_values)
qed

text \<open>The value a key ends with is the last one written to it.\<close>

lemma find_append_opt:
  "find P (xs @ ys) = (case find P xs of Some x \<Rightarrow> Some x | None \<Rightarrow> find P ys)"
  by (induction xs) auto

lemma find_in_set: "find P xs = Some x \<Longrightarrow> x \<in> set xs \<and> P x"
  by (induction xs) (auto split: if_splits)

lemma find_None_set: "find P xs = None \<Longrightarrow> x \<in> set xs \<Longrightarrow> \<not> P x"
  by (induction xs) (auto split: if_splits)

lemma upd_each_apply:
  "upd_each ts f k =
     (case find (\<lambda>t. task_id t = k) (rev ts) of Some t \<Rightarrow> Some t | None \<Rightarrow> f k)"
  unfolding upd_each_def
  by (induction ts arbitrary: f) (auto simp: find_append_opt split: option.splits)

lemma upd_each_twice: "upd_each ts (upd_each ts f) = upd_each ts f"
  by (rule ext) (simp add: upd_each_apply split: option.splits)

lemma upd_each_append: "upd_each (xs @ ys) f = upd_each ys (upd_each xs f)"
  by (simp add: upd_each_def)

lemma upd_each_written:
  assumes "k \<in> task_id ` set ts"
  shows "\<exists>t \<in> set ts. task_id t = k \<and> upd_each ts f k = Some t"
proof (cases "find (\<lambda>t. task_id t = k) (rev ts)")
  case None
  with assms show ?thesis by (auto dest: find_None_set)
next
  case (Some t)
  then show ?thesis
    using find_in_set [OF Some] by (auto simp: upd_each_apply)
qed

text \<open>Two association lists with the same keys in the same order and the same lookups.\<close>

lemma alist_eqI:
  "map fst m = map fst m' \<Longrightarrow> distinct (map fst m) \<Longrightarrow> map_of m = map_of m' \<Longrightarrow> m = m'"
proof (induction m arbitrary: m')
  case Nil
  then show ?case by simp
next
  case (Cons p m)
  then obtain q n where m': "m' = q # n"
    by (cases m') auto
  with Cons.prems have k: "fst p = fst q" "map fst m = map fst n"
    by auto
  from Cons.prems m' k have v: "snd p = snd q"
    by (metis fun_upd_same map_of.simps(2) option.inject)
  have "map_of m = map_of n"
  proof
    fix x
    show "map_of m x = map_of n x"
    proof (cases "x = fst p")
      case True
      with Cons.prems(2) k have "x \<notin> fst ` set m" "x \<notin> fst ` set n"
        by (auto simp flip: set_map)
      then show ?thesis by (metis map_of_eq_None_iff)
    next
      case False
      with Cons.prems(3) m' k show ?thesis
        by (metis fun_upd_other map_of.simps(2))
    qed
  qed
  with Cons k v m' show ?case by (simp add: prod_eq_iff)
qed

section \<open>Facts about a pass\<close>

lemma set_sort_newest_first: "set (sort_newest_first ts) = set ts"
  by (simp add: sort_newest_first_def)

lemma build_history_eq:
  "build_history prev removed now tasksArray =
     sort_newest_first (map_values (history_map prev removed now tasksArray))"
  by (simp add: build_history_def history_map_def set_each_append)

lemma stuck_is_terminal: "t \<in> set (stuckTasks removed now tasksArray) \<Longrightarrow> is_terminal t"
  by (auto simp: stuckTasks_def is_terminal_def)

lemma history_map_terminal:
  "p \<in> set (history_map prev removed now tasksArray) \<Longrightarrow> is_terminal (snd p)"
  unfolding history_map_def
  by (auto dest!: set_each_values dest: stuck_is_terminal)

lemma history_map_keyed: "keyed_by_id (history_map prev removed now tasksArray)"
  unfolding history_map_def
  by (intro set_each_keyed) (simp add: keyed_by_id_def)

lemma history_map_distinct: "distinct (map fst (history_map prev removed now tasksArray))"
  unfolding history_map_def
  by (intro distinct_set_each) simp

lemma build_history_ids:
  "task_id ` set (build_history prev removed now tasksArray) =
     task_id ` set (filter is_terminal prev) \<union> task_id ` set (filter is_terminal tasksArray)
       \<union> task_id ` set (stuckTasks removed now tasksArray)"
  unfolding build_history_eq set_sort_newest_first keyed_ids [OF history_map_keyed]
  by (auto simp: history_map_def set_each_keys)

lemma build_history_terminal:
  "t \<in> set (build_history prev removed now tasksArray) \<Longrightarrow> is_terminal t"
  by (auto simp: build_history_eq set_sort_newest_first map_values_def dest: history_map_terminal)

lemma build_history_distinct:
  "distinct (map task_id (build_history prev removed now tasksArray))"
proof -
  let ?m = "history_map prev removed now tasksArray"
  have "distinct (map task_id (map_values ?m))"
    by (simp add: keyed_map_values [OF history_map_keyed] history_map_distinct)
  then have "distinct (map_values ?m)" "inj_on task_id (set (map_values ?m))"
    by (simp_all add: distinct_map)
  then show ?thesis
    by (simp add: build_history_eq sort_newest_first_def distinct_map)
qed

lemma build_history_sorted:
  "sorted (map (\<lambda>t. - created_at t) (build_history prev removed now tasksArray))"
  by (simp add: build_history_eq sort_newest_first_def)

lemma build_history_pairs:
  "set (map (\<lambda>t. (task_id t, t)) (build_history prev removed now tasksArray))
     = set (history_map prev removed now tasksArray)"
proof -
  have "set (map (\<lambda>t. (task_id t, t)) (build_history prev removed now tasksArray))
        = set (map (\<lambda>t. (task_id t, t)) (map_values (history_map prev removed now tasksArray)))"
    by (simp add: build_history_eq set_sort_newest_first)
  then show ?thesis by (simp only: keyed_pairs [OF history_map_keyed])
qed

lemma build_history_idem:
  "build_history (build_history prev removed now tasksArray) removed now tasksArray
     = build_history prev removed now tasksArray"
proof -
  let ?h = "build_history prev removed now tasksArray"
  let ?w = "filter is_terminal tasksArray @ stuckTasks removed now tasksArray"
  let ?m1 = "history_map prev removed now tasksArray"
  let ?ma = "map (\<lambda>t. (task_id t, t)) ?h"
  let ?m2 = "history_map ?h removed now tasksArray"
  have seed: "filter is_terminal ?h = ?h"
    by (simp add: build_history_terminal)
  have ma: "set_each ?h [] = ?ma"
    using set_each_fresh [where ts = ?h and m = "[]"] build_history_distinct by simp
  have m2: "?m2 = set_each ?w ?ma"
    by (simp add: history_map_def seed ma)
  have dist_ma: "distinct (map fst ?ma)"
    using build_history_distinct [of prev removed now tasksArray] by (simp add: comp_def)
  have keys_ma: "fst ` set ?ma = fst ` set ?m1"
    by (simp only: build_history_pairs)
  have "task_id ` set ?w \<subseteq> fst ` set ?m1"
    by (simp add: history_map_def set_each_keys)
  then have keys: "map fst ?m2 = map fst ?ma"
    unfolding m2 by (intro set_each_present) (simp only: keys_ma)
  have "map_of ?ma = map_of ?m1"
    using build_history_pairs [of prev removed now tasksArray]
    by (simp only: map_of_inject_set [OF dist_ma history_map_distinct])
  also have "\<dots> = upd_each ?w (map_of (set_each (filter is_terminal prev) []))"
    by (simp add: history_map_def map_of_set_each)
  finally have mo: "map_of ?ma = upd_each ?w (map_of (set_each (filter is_terminal prev) []))" .
  have "map_of ?m2 = upd_each ?w (map_of ?ma)"
    by (simp only: m2 map_of_set_each)
  also have "\<dots> = map_of ?ma"
    by (simp only: mo upd_each_twice)
  finally have "?m2 = ?ma"
    using keys by (intro alist_eqI) (simp_all only: keys dist_ma)
  then have "build_history ?h removed now tasksArray = sort_newest_first (map_values ?ma)"
    by (simp only: build_history_eq)
  also have "map_values ?ma = ?h"
    by (simp add: map_values_def comp_def)
  also have "sort_newest_first ?h = ?h"
    unfolding sort_newest_first_def
    by (rule sort_key_id_if_sorted) (rule build_history_sorted)
  finally show ?thesis .
qed

lemma seed_retained:
  assumes "t \<in> set seen" and "is_terminal t"
  shows "task_id t \<in> task_id ` set (historyTasks (fst (loadTasks seen st now (Inr tasks))))"
proof -
  from assms have "task_id t \<in> task_id ` set (filter is_terminal seen)"
    by simp
  then show ?thesis
    by (simp add: loadTasks_def Let_def build_history_ids)
qed

lemma active_iff:
  "t \<in> set (filter (active_pred removed now) tasksArray) \<longleftrightarrow>
     t \<in> set tasksArray \<and> task_id t \<notin> removed \<and> is_in_flight t
       \<and> now - created_at t \<le> STUCK_TASK_TIMEOUT"
  by (auto simp: active_pred_def Let_def)

lemma stuck_copy_in_history:
  assumes "t \<in> set tasksArray" and "stuck_pred removed now t"
  shows "\<exists>u \<in> set tasksArray. task_id u = task_id t \<and> stuck_pred removed now u
           \<and> u\<lparr>task_status := ascii ''failed''\<rparr> \<in> set (build_history prev removed now tasksArray)"
proof -
  let ?s = "stuckTasks removed now tasksArray"
  let ?m = "history_map prev removed now tasksArray"
  from assms have "t\<lparr>task_status := ascii ''failed''\<rparr> \<in> set ?s"
    by (simp add: stuckTasks_def)
  then have "task_id (t\<lparr>task_status := ascii ''failed''\<rparr>) \<in> task_id ` set ?s"
    by (rule imageI)
  then have "task_id t \<in> task_id ` set ?s"
    by simp
  then obtain w where w: "w \<in> set ?s" "task_id w = task_id t"
      and "upd_each ?s (upd_each (filter is_terminal tasksArray)
             (map_of (set_each (filter is_terminal prev) []))) (task_id t) = Some w"
    using upd_each_written by blast
  then have "map_of ?m (task_id t) = Some w"
    by (simp add: history_map_def map_of_set_each upd_each_append)
  then have "(task_id t, w) \<in> set ?m"
    by (rule map_of_SomeD)
  then have "w \<in> set (build_history prev removed now tasksArray)"
    by (force simp: build_history_eq set_sort_newest_first map_values_def)
  moreover from w(1) obtain u where "u \<in> set tasksArray" "stuck_pred removed now u"
      "w = u\<lparr>task_status := ascii ''failed''\<rparr>"
    by (auto simp: stuckTasks_def)
  ultimately show ?thesis
    using w(2) by auto
qed

section \<open>Facts about the input parser\<close>

lemma digit_not_space: "is_digit c \<Longrightarrow> \<not> is_space c"
  by (auto simp: is_digit_def is_space_def)

lemma digit_not_comma: "is_digit c \<Longrightarrow> c \<noteq> comma"
  by (auto simp: is_digit_def comma_def)

lemma space_not_comma: "is_space c \<Longrightarrow> c \<noteq> comma"
  by (auto simp: is_space_def comma_def)

lemma dropWhile_keep: "xs \<noteq> [] \<Longrightarrow> \<not> P (hd xs) \<Longrightarrow> dropWhile P xs = xs"
  by (cases xs) simp_all

lemma dropWhile_all: "list_all P xs \<Longrightarrow> dropWhile P xs = []"
  by (simp add: list_all_iff)

lemma takeWhile_all: "list_all P xs \<Longrightarrow> takeWhile P xs = xs"
  by (simp add: list_all_iff)

lemma last_dropWhile_keep: "dropWhile P xs \<noteq> [] \<Longrightarrow> last (dropWhile P xs) = last xs"
  by (induction xs) (auto split: if_splits)

lemma trim_blank: "list_all is_space s \<Longrightarrow> trim s = []"
  by (simp add: trim_def dropWhile_all)

lemma trim_fixed:
  "s \<noteq> [] \<Longrightarrow> \<not> is_space (hd s) \<Longrightarrow> \<not> is_space (last s) \<Longrightarrow> trim s = s"
  by (simp add: trim_def dropWhile_keep hd_rev)

lemma trim_ends:
  assumes "trim s \<noteq> []"
  shows "\<not> is_space (hd (trim s))" and "\<not> is_space (last (trim s))"
proof -
  let ?t = "dropWhile is_space s"
  let ?u = "dropWhile is_space (rev ?t)"
  from assms have u: "?u \<noteq> []"
    by (simp add: trim_def)
  have t: "?t \<noteq> []"
  proof
    assume "?t = []"
    with u show False by simp
  qed
  have "\<not> is_space (hd ?u)"
    using u by (rule hd_dropWhile)
  then show "\<not> is_space (last (trim s))"
    using u by (simp add: trim_def last_rev)
  have "last ?u = last (rev ?t)"
    using u by (rule last_dropWhile_keep)
  also have "\<dots> = hd ?t"
    using t by (simp add: last_rev)
  finally have "hd (trim s) = hd ?t"
    using u by (simp add: trim_def hd_rev)
  moreover have "\<not> is_space (hd ?t)"
    using t by (rule hd_dropWhile)
  ultimately show "\<not> is_space (hd (trim s))"
    by simp
qed

lemma trim_idem: "trim (trim s) = trim s"
proof (cases "trim s = []")
  case True
  then show ?thesis by (simp add: trim_blank)
next
  case False
  then show ?thesis by (intro trim_fixed trim_ends)
qed

lemma trim_nonempty: "s \<noteq> [] \<Longrightarrow> \<not> is_space (hd s) \<Longrightarrow> trim s \<noteq> []"
proof -
  assume a: "s \<noteq> []" "\<not> is_space (hd s)"
  then have "hd s \<in> set (rev s)"
    by simp
  with a(2) have "dropWhile is_space (rev s) \<noteq> []"
    by (auto simp: dropWhile_eq_Nil_conv)
  with a show ?thesis
    by (simp add: trim_def dropWhile_keep)
qed

lemma trim_spaces_then:
  "list_all is_space ws \<Longrightarrow> b \<noteq> [] \<Longrightarrow> \<not> is_space (hd b) \<Longrightarrow> \<not> is_space (last b)
   \<Longrightarrow> trim (ws @ b) = b"
proof -
  assume a: "list_all is_space ws" "b \<noteq> []" "\<not> is_space (hd b)" "\<not> is_space (last b)"
  then have "dropWhile is_space (ws @ b) = dropWhile is_space b"
    by (intro dropWhile_append2) (simp add: list_all_iff)
  with a show ?thesis
    by (simp add: trim_def dropWhile_keep hd_rev)
qed

lemma split_on_nonempty: "split_on sep s \<noteq> []"
  by (induction s) (auto split: list.splits)

lemma split_on_none: "sep \<notin> set s \<Longrightarrow> split_on sep s = [s]"
  by (induction s) auto

lemma split_on_first: "sep \<notin> set a \<Longrightarrow> split_on sep (a @ sep # b) = a # split_on sep b"
  by (induction a) auto

lemma split_on_hd: "hd (split_on sep s) = takeWhile (\<lambda>c. c \<noteq> sep) s"
  by (induction s) (auto split: list.splits simp: split_on_nonempty)

lemma split_ws_none: "list_all (\<lambda>c. \<not> is_space c) s \<Longrightarrow> split_ws s = [s]"
  by (induction s) auto

lemma split_ws_spaces:
  "ws \<noteq> [] \<Longrightarrow> list_all is_space ws \<Longrightarrow> b \<noteq> [] \<Longrightarrow> \<not> is_space (hd b)
   \<Longrightarrow> split_ws (ws @ b) = [] # split_ws b"
proof (induction ws)
  case Nil
  then show ?case by simp
next
  case (Cons c ws)
  show ?case
  proof (cases ws)
    case Nil
    with Cons.prems show ?thesis by (cases b) auto
  next
    case (Cons d ds)
    with Cons.prems Cons.IH show ?thesis by auto
  qed
qed

lemma split_ws_token:
  "k \<noteq> [] \<Longrightarrow> list_all (\<lambda>c. \<not> is_space c) k \<Longrightarrow> ws \<noteq> [] \<Longrightarrow> list_all is_space ws
   \<Longrightarrow> b \<noteq> [] \<Longrightarrow> \<not> is_space (hd b)
   \<Longrightarrow> split_ws (k @ ws @ b) = k # split_ws b"
proof (induction k)
  case Nil
  then show ?case by simp
next
  case (Cons c k)
  show ?case
  proof (cases "k = []")
    case True
    with Cons.prems show ?thesis by (simp add: split_ws_spaces)
  next
    case False
    with Cons.prems Cons.IH show ?thesis by simp
  qed
qed

lemma split_ws_hd:
  "s \<noteq> [] \<Longrightarrow> \<not> is_space (hd s) \<Longrightarrow>
   \<exists>p ps. split_ws s = p # ps \<and> p \<noteq> [] \<and> hd p = hd s"
  by (cases s) (auto split: list.splits)

lemma join_hd: "p \<noteq> [] \<Longrightarrow> join sep (p # ps) \<noteq> [] \<and> hd (join sep (p # ps)) = hd p"
  by (cases ps) auto

lemma match_count_digits:
  "ds \<noteq> [] \<Longrightarrow> list_all is_digit ds \<Longrightarrow> match_count ds = Some ds"
  by (simp add: match_count_def takeWhile_all dropWhile_all)

lemma noun_shape:
  assumes "noun \<in> set count_nouns"
  shows "noun \<noteq> []" and "\<not> is_space (hd noun)" and "\<not> is_digit (hd noun)"
    and "\<not> is_space (last noun)" and "comma \<notin> set noun"
  using assms
  by (auto simp: count_nouns_def ascii_def is_space_def is_digit_def comma_def)

lemma ci_starts_with_self: "ci_starts_with noun noun"
  by (simp add: ci_starts_with_def)

lemma match_count_noun:
  assumes "ds \<noteq> []" "list_all is_digit ds" "list_all is_space ws" "noun \<in> set count_nouns"
  shows "match_count (ds @ ws @ noun) = Some ds"
proof -
  have r: "ws @ noun \<noteq> []" "\<not> is_digit (hd (ws @ noun))"
    using assms(3) noun_shape [OF assms(4)]
    by (cases ws; auto simp: list_all_iff dest: digit_not_space)+
  have t: "takeWhile is_digit (ds @ ws @ noun) = ds"
    using assms(2) r by (cases "ws @ noun") (auto simp: list_all_iff takeWhile_append2 takeWhile_tail)
  have d: "dropWhile is_digit (ds @ ws @ noun) = ws @ noun"
    using assms(2) r by (simp add: list_all_iff dropWhile_append2 dropWhile_keep)
  have w: "dropWhile is_space (ws @ noun) = noun"
    using assms(3) noun_shape [OF assms(4)]
    by (simp add: list_all_iff dropWhile_append2 dropWhile_keep)
  have "list_ex (\<lambda>n. ci_starts_with n noun \<and> list_all is_space (drop (length n) noun)) count_nouns"
    unfolding list_ex_iff using assms(4) ci_starts_with_self by fastforce
  then show ?thesis
    using assms(1) by (simp add: match_count_def Let_def t d w)
qed

lemma parse_range: "parse_input raw = Inr (k, n) \<Longrightarrow> 1 \<le> n \<and> n \<le> 20"
  by (auto simp: parse_input_def Let_def split: if_splits list.splits option.splits)

lemma parse_blank: "list_all is_space raw \<Longrightarrow> parse_input raw = Inl EnterKeyword"
  by (simp add: parse_input_def trim_blank)

lemma parse_leading_comma:
  assumes "trim raw = comma # rest"
  shows "parse_input raw = Inl EnterValidKeyword"
proof -
  obtain x xs where "split_on comma rest = x # xs"
    using split_on_nonempty [of comma rest] by (cases "split_on comma rest") auto
  then show ?thesis
    using assms
    by (simp add: parse_input_def Let_def trim_blank split: option.splits)
qed

text \<open>The form \<open>keyword, clause\<close>: the count is decided by the clause alone.\<close>

lemma parse_comma_clause:
  assumes "k \<noteq> []" "trim k = k" "comma \<notin> set k"
    and "list_all is_space ws" "c \<noteq> []" "trim c = c" "comma \<notin> set c"
  shows "parse_input (k @ comma # ws @ c) =
           Inr (k, case match_count c of
                     Some ds \<Rightarrow> if 0 < parseInt ds \<and> parseInt ds \<le> 20 then parseInt ds else 3
                   | None \<Rightarrow> 3)"
proof -
  let ?raw = "k @ comma # ws @ c"
  from assms(1,2) have k: "\<not> is_space (hd k)" "\<not> is_space (last k)"
    using trim_ends [of k] by simp_all
  from assms(5,6) have d: "\<not> is_space (hd c)" "\<not> is_space (last c)"
    using trim_ends [of c] by simp_all
  have "trim ?raw = ?raw"
    using assms(1,5) k d by (intro trim_fixed) simp_all
  moreover have "comma \<notin> set (ws @ c)"
    using assms(4,7) by (auto simp: list_all_iff dest: space_not_comma)
  then have "split_on comma ?raw = [k, ws @ c]"
    using assms(3) by (simp add: split_on_first split_on_none)
  moreover have "trim (ws @ c) = c"
    using assms(4,5) d by (intro trim_spaces_then)
  ultimately show ?thesis
    using assms by (simp add: parse_input_def Let_def split: option.splits)
qed

lemma parse_comma_count:
  assumes "k \<noteq> []" "trim k = k" "comma \<notin> set k" "list_all is_space ws"
    and "ds \<noteq> []" "list_all is_digit ds"
    and "tail = [] \<or> (\<exists>ws' noun. list_all is_space ws' \<and> noun \<in> set count_nouns \<and> tail = ws' @ noun)"
  shows "parse_input (k @ comma # ws @ ds @ tail) =
           Inr (k, if 1 \<le> parseInt ds \<and> parseInt ds \<le> 20 then parseInt ds else 3)"
proof -
  from assms(5,6) have d: "\<not> is_space (hd ds)" "\<not> is_space (last ds)" "comma \<notin> set ds"
    by (auto simp: list_all_iff dest: digit_not_space digit_not_comma)
  from assms(7) have "match_count (ds @ tail) = Some ds \<and> trim (ds @ tail) = ds @ tail
      \<and> comma \<notin> set (ds @ tail)"
  proof
    assume "tail = []"
    with assms(5,6) d show ?thesis
      by (simp add: match_count_digits trim_fixed)
  next
    assume "\<exists>ws' noun. list_all is_space ws' \<and> noun \<in> set count_nouns \<and> tail = ws' @ noun"
    then obtain ws' noun where t: "list_all is_space ws'" "noun \<in> set count_nouns"
        "tail = ws' @ noun"
      by blast
    have "trim (ds @ ws' @ noun) = ds @ ws' @ noun"
      using assms(5) d noun_shape [OF t(2)] by (intro trim_fixed) simp_all
    moreover have "comma \<notin> set (ds @ ws' @ noun)"
      using d t(1) noun_shape [OF t(2)] by (auto simp: list_all_iff dest: space_not_comma)
    ultimately show ?thesis
      using t assms(5,6) by (simp add: match_count_noun)
  qed
  then show ?thesis
    using parse_comma_clause [OF assms(1-4), of "ds @ tail"] assms(5)
    by (simp add: Suc_le_eq)
qed

lemma parse_single_token:
  assumes "s \<noteq> []" "list_all (\<lambda>c. \<not> is_space c \<and> c \<noteq> comma) s"
  shows "parse_input s = Inr (s, 3)"
proof -
  from assms have e: "\<not> is_space (hd s)" "\<not> is_space (last s)"
    by (auto simp: list_all_iff)
  have "trim s = s"
    using assms(1) e by (intro trim_fixed)
  moreover have "split_ws s = [s]"
    using assms(2) by (intro split_ws_none) (simp add: list_all_iff)
  moreover have "comma \<notin> set s"
    using assms(2) by (auto simp: list_all_iff)
  ultimately show ?thesis
    using assms(1) by (simp add: parse_input_def Let_def)
qed

lemma parse_trailing_count:
  assumes "k \<noteq> []" "list_all (\<lambda>c. \<not> is_space c \<and> c \<noteq> comma) k"
    and "ws \<noteq> []" "list_all is_space ws" "ds \<noteq> []" "list_all is_digit ds"
  shows "parse_input (k @ ws @ ds) =
           Inr (if 1 \<le> parseInt ds \<and> parseInt ds \<le> 20 then (k, parseInt ds)
                else (k @ ws @ ds, 3))"
proof -
  let ?raw = "k @ ws @ ds"
  from assms(1,2) have k: "\<not> is_space (hd k)" "\<not> is_space (last k)" "comma \<notin> set k"
      "list_all (\<lambda>c. \<not> is_space c) k"
    by (auto simp: list_all_iff)
  from assms(5,6) have d: "\<not> is_space (hd ds)" "\<not> is_space (last ds)" "comma \<notin> set ds"
      "list_all (\<lambda>c. \<not> is_space c) ds"
    by (auto simp: list_all_iff dest: digit_not_space digit_not_comma)
  have "trim ?raw = ?raw"
    using assms(1,5) k d by (intro trim_fixed) simp_all
  moreover have "comma \<notin> set ?raw"
    using assms(4) k d by (auto simp: list_all_iff dest: space_not_comma)
  moreover have "split_ws ?raw = [k, ds]"
    using assms k(4) d(1,4) by (simp add: split_ws_token split_ws_none)
  moreover have "trim k = k"
    using assms(1) k by (intro trim_fixed)
  ultimately show ?thesis
    using assms(1) by (simp add: parse_input_def Let_def match_count_digits assms Suc_le_eq)
qed

lemma parse_keyword_nonempty:
  assumes "trim raw \<noteq> []" and "hd (trim raw) \<noteq> comma"
  shows "parse_input raw \<noteq> Inl EnterValidKeyword"
proof -
  let ?input = "trim raw"
  have h: "\<not> is_space (hd ?input)"
    using assms(1) by (rule trim_ends)
  show ?thesis
  proof (cases "comma \<in> set ?input")
    case True
    let ?first = "takeWhile (\<lambda>c. c \<noteq> comma) ?input"
    have f: "?first \<noteq> []" "hd ?first = hd ?input"
      using assms by (cases ?input; simp)+
    obtain more where s: "split_on comma ?input = ?first # more"
      using split_on_hd [of comma ?input] split_on_nonempty [of comma ?input]
      by (cases "split_on comma ?input") auto
    have "trim ?first \<noteq> []"
      using f h by (intro trim_nonempty) simp_all
    then have "trim (trim ?first) \<noteq> []"
      by (simp add: trim_idem)
    then show ?thesis
      using assms(1) True s
      by (auto simp: parse_input_def Let_def split: list.splits option.splits)
  next
    case False
    obtain p ps where s: "split_ws ?input = p # ps" "p \<noteq> []" "hd p = hd ?input"
      using split_ws_hd [OF assms(1) h] by blast
    have "trim (join [32] (butlast (p # ps))) \<noteq> []" if "ps \<noteq> []"
    proof -
      from that have "butlast (p # ps) = p # butlast ps"
        by simp
      then show ?thesis
        using join_hd [OF s(2), of "[32]" "butlast ps"] s(3) h
        by (intro trim_nonempty) simp_all
    qed
    then show ?thesis
      using assms(1) False s
      by (auto simp: parse_input_def Let_def split: option.splits)
  qed
qed

lemma parse_empty_keyword_iff:
  "parse_input raw = Inl EnterValidKeyword \<longleftrightarrow> (\<exists>rest. trim raw = comma # rest)"
proof
  assume e: "parse_input raw = Inl EnterValidKeyword"
  then have n: "trim raw \<noteq> []"
    by (auto simp: parse_input_def)
  with e parse_keyword_nonempty [of raw] have "hd (trim raw) = comma"
    by blast
  with n show "\<exists>rest. trim raw = comma # rest"
    by (cases "trim raw") auto
next
  assume "\<exists>rest. trim raw = comma # rest"
  then show "parse_input raw = Inl EnterValidKeyword"
    by (auto intro: parse_leading_comma)
qed

text \<open>How \<open>trim\<close> cuts a string.\<close>

lemma trim_unique:
  assumes "list_all is_space l" "list_all is_space r"
    and "m = [] \<or> (\<not> is_space (hd m) \<and> \<not> is_space (last m))"
  shows "trim (l @ m @ r) = m"
proof (cases "m = []")
  case True
  with assms show ?thesis by (simp add: trim_blank)
next
  case False
  with assms(3) have e: "\<not> is_space (hd m)" "\<not> is_space (last m)"
    by simp_all
  have "dropWhile is_space (l @ m @ r) = dropWhile is_space (m @ r)"
    using assms(1) by (intro dropWhile_append2) (simp add: list_all_iff)
  also have "\<dots> = m @ r"
    using False e by (intro dropWhile_keep) simp_all
  finally have 1: "dropWhile is_space (l @ m @ r) = m @ r" .
  have "dropWhile is_space (rev r @ rev m) = dropWhile is_space (rev m)"
    using assms(2) by (intro dropWhile_append2) (simp add: list_all_iff)
  also have "\<dots> = rev m"
    using False e by (intro dropWhile_keep) (simp_all add: hd_rev)
  finally show ?thesis
    by (simp add: trim_def 1)
qed

lemma trim_decomp:
  "\<exists>l r. l @ trim s @ r = s \<and> list_all is_space l \<and> list_all is_space r"
proof -
  let ?t = "dropWhile is_space s"
  let ?l = "takeWhile is_space s"
  let ?r = "rev (takeWhile is_space (rev ?t))"
  have "rev (rev ?t) = rev (takeWhile is_space (rev ?t) @ dropWhile is_space (rev ?t))"
    by simp
  also have "\<dots> = rev (dropWhile is_space (rev ?t)) @ rev (takeWhile is_space (rev ?t))"
    by (rule rev_append)
  finally have "trim s @ ?r = ?t"
    by (simp only: rev_rev_ident trim_def)
  then have "?l @ trim s @ ?r = s"
    by simp
  moreover have "list_all is_space ?l" "list_all is_space ?r"
    by (auto simp: list_all_iff dest: set_takeWhileD)
  ultimately show ?thesis
    by blast
qed

lemma trim_shape: "trim s = [] \<or> (\<not> is_space (hd (trim s)) \<and> \<not> is_space (last (trim s)))"
  using trim_ends by blast

lemma trim_inner:
  assumes "list_all is_space l" "list_all is_space r"
  shows "trim (l @ s @ r) = trim s"
proof -
  obtain l' r' where d: "l' @ trim s @ r' = s" "list_all is_space l'" "list_all is_space r'"
    using trim_decomp by blast
  have "trim ((l @ l') @ trim s @ (r' @ r)) = trim s"
    using assms d(2,3) trim_shape by (intro trim_unique) simp_all
  moreover have "(l @ l') @ trim s @ (r' @ r) = l @ (l' @ trim s @ r') @ r"
    by simp
  ultimately show ?thesis
    by (simp only: d(1))
qed

lemma trim_keeps:
  assumes "c \<in> set s" "\<not> is_space c"
  shows "c \<in> set (trim s)"
proof -
  obtain l r where d: "l @ trim s @ r = s" "list_all is_space l" "list_all is_space r"
    using trim_decomp by blast
  from assms(1) have "c \<in> set (l @ trim s @ r)"
    by (simp only: d(1))
  with assms(2) d(2,3) show ?thesis
    by (auto simp: list_all_iff)
qed

lemma trim_subset: "c \<in> set (trim s) \<Longrightarrow> c \<in> set s"
proof -
  assume a: "c \<in> set (trim s)"
  obtain l r where d: "l @ trim s @ r = s"
    using trim_decomp by blast
  from a have "c \<in> set (l @ trim s @ r)"
    by simp
  then show ?thesis
    by (simp only: d)
qed

text \<open>Case is ignored on the letters of the nouns.\<close>

lemma noun_letters:
  assumes "noun \<in> set count_nouns" "d \<in> set noun"
  shows "d \<in> {97, 114, 116, 105, 99, 108, 101, 115,
              1089, 1090, 1072, 1100, 1080, 1077, 1081, 1103}"
  using assms by (auto simp: count_nouns_def ascii_def)

lemma canonical_same:
  assumes "noun \<in> set count_nouns" "d \<in> set noun"
  shows "canonicalize c = canonicalize d \<longleftrightarrow> same_letter c d"
  using noun_letters [OF assms]
  by (elim insertE emptyE; simp add: canonicalize_def same_letter_def; arith)

lemma same_letter_plain:
  assumes "noun \<in> set count_nouns" "d \<in> set noun" "same_letter c d"
  shows "\<not> is_digit c" and "\<not> is_space c" and "c \<noteq> comma"
  using noun_letters [OF assms(1,2)] assms(3)
  by (elim insertE emptyE; simp add: same_letter_def is_digit_def is_space_def comma_def; arith)+

lemma map_eq_list_all2: "map f xs = map f ys \<longleftrightarrow> list_all2 (\<lambda>x y. f x = f y) xs ys"
proof
  assume "map f xs = map f ys"
  then have "length xs = length ys"
    by (rule map_eq_imp_length_eq)
  then show "list_all2 (\<lambda>x y. f x = f y) xs ys"
    using \<open>map f xs = map f ys\<close> by (induction xs ys rule: list_induct2) auto
next
  assume "list_all2 (\<lambda>x y. f x = f y) xs ys"
  then show "map f xs = map f ys"
    by (induction rule: list_all2_induct) auto
qed

lemma canonical_same_list:
  assumes "noun \<in> set count_nouns"
  shows "map canonicalize t = map canonicalize noun \<longleftrightarrow> list_all2 same_letter t noun"
proof -
  have "list_all2 (\<lambda>x y. canonicalize x = canonicalize y) t noun \<longleftrightarrow> list_all2 same_letter t noun"
  proof
    assume "list_all2 (\<lambda>x y. canonicalize x = canonicalize y) t noun"
    then show "list_all2 same_letter t noun"
      by (rule list.rel_mono_strong) (simp add: canonical_same [OF assms])
  next
    assume "list_all2 same_letter t noun"
    then show "list_all2 (\<lambda>x y. canonicalize x = canonicalize y) t noun"
      by (rule list.rel_mono_strong) (simp add: canonical_same [OF assms])
  qed
  then show ?thesis
    by (simp only: map_eq_list_all2)
qed

lemma same_letter_tail:
  assumes "noun \<in> set count_nouns" "list_all2 same_letter tail noun"
  shows "tail \<noteq> []" and "\<not> is_digit (hd tail)" and "\<not> is_space (hd tail)"
    and "comma \<notin> set tail" and "length tail = length noun"
proof -
  from assms(2) show l: "length tail = length noun"
    by (rule list_all2_lengthD)
  with noun_shape(1) [OF assms(1)] show n: "tail \<noteq> []"
    by auto
  from assms(2) n obtain c cs d ds where s: "tail = c # cs" "noun = d # ds" "same_letter c d"
    by (cases tail; cases noun) auto
  then have "d \<in> set noun"
    by simp
  from same_letter_plain [OF assms(1) this s(3)] s(1)
  show "\<not> is_digit (hd tail)" "\<not> is_space (hd tail)"
    by simp_all
  show "comma \<notin> set tail"
  proof
    assume "comma \<in> set tail"
    then obtain i where i: "i < length tail" "tail ! i = comma"
      by (auto simp: in_set_conv_nth)
    with assms(2) have "same_letter comma (noun ! i)" "noun ! i \<in> set noun"
      using l by (auto dest: list_all2_nthD)
    with same_letter_plain(3) [OF assms(1)] show False
      by blast
  qed
qed

text \<open>The pattern of the count clause, as a language.\<close>

lemma match_count_iff:
  "match_count c = Some ds \<longleftrightarrow>
     ds \<noteq> [] \<and> list_all is_digit ds
     \<and> (\<exists>ws tail ws'. c = ds @ ws @ tail @ ws' \<and> list_all is_space ws \<and> list_all is_space ws'
           \<and> (tail = [] \<or> (\<exists>noun \<in> set count_nouns. list_all2 same_letter tail noun)))"
proof
  assume m: "match_count c = Some ds"
  let ?r0 = "dropWhile is_digit c"
  let ?rest = "dropWhile is_space ?r0"
  from m have ds: "ds = takeWhile is_digit c" "ds \<noteq> []"
    by (auto simp: match_count_def Let_def split: if_splits)
  then have dig: "list_all is_digit ds"
    by (auto simp: list_all_iff dest: set_takeWhileD)
  have c: "c = ds @ takeWhile is_space ?r0 @ ?rest"
    by (simp add: ds(1))
  have w: "list_all is_space (takeWhile is_space ?r0)"
    by (auto simp: list_all_iff dest: set_takeWhileD)
  from m ds have "?rest = [] \<or> list_ex (\<lambda>noun. ci_starts_with noun ?rest
        \<and> list_all is_space (drop (length noun) ?rest)) count_nouns"
    by (auto simp: match_count_def Let_def split: if_splits)
  then show "ds \<noteq> [] \<and> list_all is_digit ds
     \<and> (\<exists>ws tail ws'. c = ds @ ws @ tail @ ws' \<and> list_all is_space ws \<and> list_all is_space ws'
           \<and> (tail = [] \<or> (\<exists>noun \<in> set count_nouns. list_all2 same_letter tail noun)))"
  proof
    assume "?rest = []"
    with c have "c = ds @ takeWhile is_space ?r0 @ [] @ []"
      by simp
    with w have "\<exists>ws tail ws'. c = ds @ ws @ tail @ ws' \<and> list_all is_space ws
        \<and> list_all is_space ws'
        \<and> (tail = [] \<or> (\<exists>noun \<in> set count_nouns. list_all2 same_letter tail noun))"
      by (intro exI [of _ "takeWhile is_space ?r0"] exI [of _ "[]"]) simp
    with ds(2) dig show ?thesis
      by blast
  next
    assume "list_ex (\<lambda>noun. ci_starts_with noun ?rest
        \<and> list_all is_space (drop (length noun) ?rest)) count_nouns"
    then obtain noun where n: "noun \<in> set count_nouns" "ci_starts_with noun ?rest"
        "list_all is_space (drop (length noun) ?rest)"
      by (auto simp: list_ex_iff)
    let ?tail = "take (length noun) ?rest"
    from n(2) have "list_all2 same_letter ?tail noun"
      by (simp add: ci_starts_with_def canonical_same_list [OF n(1)])
    moreover have "c = ds @ takeWhile is_space ?r0 @ ?tail @ drop (length noun) ?rest"
      using c by simp
    ultimately have "\<exists>ws tail ws'. c = ds @ ws @ tail @ ws' \<and> list_all is_space ws
        \<and> list_all is_space ws'
        \<and> (tail = [] \<or> (\<exists>noun \<in> set count_nouns. list_all2 same_letter tail noun))"
      using w n(1,3)
      by (intro exI [of _ "takeWhile is_space ?r0"] exI [of _ ?tail]
          exI [of _ "drop (length noun) ?rest"]) blast
    with ds(2) dig show ?thesis
      by blast
  qed
next
  assume "ds \<noteq> [] \<and> list_all is_digit ds
     \<and> (\<exists>ws tail ws'. c = ds @ ws @ tail @ ws' \<and> list_all is_space ws \<and> list_all is_space ws'
           \<and> (tail = [] \<or> (\<exists>noun \<in> set count_nouns. list_all2 same_letter tail noun)))"
  then obtain ws tail ws' where a: "ds \<noteq> []" "list_all is_digit ds"
      "c = ds @ ws @ tail @ ws'" "list_all is_space ws" "list_all is_space ws'"
      "tail = [] \<or> (\<exists>noun \<in> set count_nouns. list_all2 same_letter tail noun)"
    by blast
  from a(6) show "match_count c = Some ds"
  proof
    assume "tail = []"
    with a have s: "list_all is_space (ws @ ws')" "c = ds @ (ws @ ws')"
      by simp_all
    have "takeWhile is_digit (ds @ (ws @ ws')) = ds"
    proof (cases "ws @ ws'")
      case Nil
      with a(2) show ?thesis by (simp add: takeWhile_all)
    next
      case (Cons x xs)
      with s(1) have "\<not> is_digit x"
        by (auto dest: digit_not_space)
      with a(2) Cons show ?thesis
        by (simp add: list_all_iff takeWhile_tail)
    qed
    moreover have "dropWhile is_space (dropWhile is_digit (ds @ (ws @ ws'))) = []"
    proof -
      have "dropWhile is_digit (ds @ (ws @ ws')) = dropWhile is_digit (ws @ ws')"
        using a(2) by (intro dropWhile_append2) (simp add: list_all_iff)
      moreover have "set (dropWhile is_digit (ws @ ws')) \<subseteq> set (ws @ ws')"
        by (auto dest: set_dropWhileD)
      ultimately show ?thesis
        using s(1) by (auto simp: dropWhile_eq_Nil_conv list_all_iff)
    qed
    ultimately show ?thesis
      using a(1) by (simp add: match_count_def Let_def s(2))
  next
    assume "\<exists>noun \<in> set count_nouns. list_all2 same_letter tail noun"
    then obtain noun where n: "noun \<in> set count_nouns" "list_all2 same_letter tail noun"
      by blast
    note t = same_letter_tail [OF n]
    have h: "ws @ tail @ ws' \<noteq> []" "\<not> is_digit (hd (ws @ tail @ ws'))"
      using t(1,2) a(4) by (cases ws; auto simp: dest: digit_not_space)+
    have 1: "takeWhile is_digit (ds @ ws @ tail @ ws') = ds"
      using a(2) h by (cases "ws @ tail @ ws'") (auto simp: list_all_iff takeWhile_tail)
    have 2: "dropWhile is_digit (ds @ ws @ tail @ ws') = ws @ tail @ ws'"
      using a(2) h by (simp add: list_all_iff dropWhile_append2 dropWhile_keep)
    have 3: "dropWhile is_space (ws @ tail @ ws') = tail @ ws'"
      using a(4) t(1,3) by (simp add: list_all_iff dropWhile_append2 dropWhile_keep)
    have "ci_starts_with noun (tail @ ws')"
      using n(2) t(5) by (simp add: ci_starts_with_def canonical_same_list [OF n(1)])
    moreover have "list_all is_space (drop (length noun) (tail @ ws'))"
      using a(5) t(5) by simp
    ultimately have "list_ex (\<lambda>noun. ci_starts_with noun (tail @ ws')
        \<and> list_all is_space (drop (length noun) (tail @ ws'))) count_nouns"
      using n(1) by (auto simp: list_ex_iff)
    then show ?thesis
      using a(1) by (simp add: match_count_def Let_def a(3) 1 2 3)
  qed
qed

lemma match_count_comma: "comma \<in> set c \<Longrightarrow> match_count c = None"
proof (rule ccontr)
  assume c: "comma \<in> set c" and "match_count c \<noteq> None"
  then obtain ds where "match_count c = Some ds"
    by auto
  then obtain ws tail ws' where a: "list_all is_digit ds"
      "c = ds @ ws @ tail @ ws'" "list_all is_space ws" "list_all is_space ws'"
      "tail = [] \<or> (\<exists>noun \<in> set count_nouns. list_all2 same_letter tail noun)"
    unfolding match_count_iff by blast
  from a(5) have "comma \<notin> set tail"
    using same_letter_tail(4) by auto
  with c a(1-4) show False
    by (auto simp: list_all_iff dest: digit_not_comma space_not_comma)
qed

lemma parseInt_snoc: "parseInt (ds @ [d]) = 10 * parseInt ds + (d - 48)"
  by (simp add: parseInt_def)

lemma comma_not_space: "\<not> is_space comma"
  by (simp add: is_space_def comma_def)

lemma split_on_two: "sep \<in> set s \<Longrightarrow> \<exists>x y ys. split_on sep s = x # y # ys"
proof (induction s)
  case Nil
  then show ?case by simp
next
  case (Cons c cs)
  obtain p ps where p: "split_on sep cs = p # ps"
    using split_on_nonempty [of sep cs] by (cases "split_on sep cs") auto
  show ?case
  proof (cases "c = sep")
    case True
    with p show ?thesis by simp
  next
    case False
    with Cons obtain x y ys where "split_on sep cs = x # y # ys"
      by auto
    with False show ?thesis by simp
  qed
qed

lemma join_two: "sep \<in> set (join [sep] (p # q # ps))"
  by simp

lemma hd_around: "u = [] \<or> \<not> P (hd u) \<Longrightarrow> \<not> P c \<Longrightarrow> \<not> P (hd (u @ c # v))"
  by (cases u) auto

lemma last_around: "v = [] \<or> \<not> P (last v) \<Longrightarrow> \<not> P c \<Longrightarrow> \<not> P (last (u @ c # v))"
  by (cases "v = []") auto

text \<open>The rule for an input with a comma.\<close>

lemma parse_comma_rule:
  assumes "comma \<notin> set a"
  shows "parse_input (a @ comma # b) =
           (if trim a = [] then Inl EnterValidKeyword
            else Inr (trim a,
                      if comma \<in> set b then 3
                      else (case match_count (trim b) of
                              Some ds \<Rightarrow> if 1 \<le> parseInt ds \<and> parseInt ds \<le> 20 then parseInt ds else 3
                            | None \<Rightarrow> 3)))"
proof -
  let ?l = "takeWhile is_space a"
  let ?u = "dropWhile is_space a"
  let ?v = "rev (dropWhile is_space (rev b))"
  let ?r = "rev (takeWhile is_space (rev b))"
  let ?m = "?u @ comma # ?v"
  have b: "b = ?v @ ?r"
  proof -
    have "rev (rev b) = rev (takeWhile is_space (rev b) @ dropWhile is_space (rev b))"
      by simp
    then show ?thesis
      by (simp only: rev_append rev_rev_ident)
  qed
  have sl: "list_all is_space ?l" and sr: "list_all is_space ?r"
    by (auto simp: list_all_iff dest: set_takeWhileD)
  have u: "?u = [] \<or> \<not> is_space (hd ?u)"
    using hd_dropWhile [of is_space a] by blast
  have v: "?v = [] \<or> \<not> is_space (last ?v)"
    using hd_dropWhile [of is_space "rev b"] by (auto simp: last_rev)
  have "a @ comma # b = ?l @ ?m @ ?r"
    using b by (metis append.assoc append_Cons takeWhile_dropWhile_id)
  moreover have "trim (?l @ ?m @ ?r) = ?m"
  proof (rule trim_unique [OF sl sr])
    have "\<not> is_space (hd ?m)"
      using u comma_not_space by (rule hd_around)
    moreover have "\<not> is_space (last ?m)"
      using v comma_not_space by (rule last_around)
    ultimately show "?m = [] \<or> (\<not> is_space (hd ?m) \<and> \<not> is_space (last ?m))"
      by blast
  qed
  ultimately have input: "trim (a @ comma # b) = ?m"
    by simp
  have tu: "trim ?u = trim a"
    using trim_inner [OF sl, of "[]" ?u] by simp
  have tv: "trim ?v = trim b"
    using trim_inner [of "[]" ?r ?v] sr b by simp
  have cu: "comma \<notin> set ?u"
    using assms by (auto dest: set_dropWhileD)
  then have split: "split_on comma ?m = ?u # split_on comma ?v"
    by (rule split_on_first)
  have key: "trim (trim ?u) = trim a"
    by (simp only: trim_idem tu)
  show ?thesis
  proof (cases "comma \<in> set b")
    case True
    then have "comma \<in> set (?v @ ?r)"
      using b by simp
    then have "comma \<in> set ?v"
      using sr by (auto simp: list_all_iff dest: space_not_comma)
    then obtain x y ys where s: "split_on comma ?v = x # y # ys"
      using split_on_two by blast
    have "comma \<in> set (join [comma] (trim x # trim y # map trim ys))"
      by (rule join_two)
    then have "comma \<in> set (trim (join [comma] (trim x # trim y # map trim ys)))"
      using comma_not_space by (rule trim_keeps)
    then have "match_count (trim (join [comma] (trim x # trim y # map trim ys))) = None"
      by (rule match_count_comma)
    then show ?thesis
      using True by (simp add: parse_input_def input Let_def split s key)
  next
    case False
    then have "comma \<notin> set ?v"
      by (auto dest: set_dropWhileD)
    then have s: "split_on comma ?v = [?v]"
      by (rule split_on_none)
    have "trim (trim ?v) = trim b"
      by (simp only: trim_idem tv)
    then show ?thesis
      using False by (simp add: parse_input_def input Let_def split s key Suc_le_eq
          split: option.splits)
  qed
qed

text \<open>Words and the white space between them.\<close>

lemma spaced_ends:
  assumes "ws \<noteq> []" "\<forall>w \<in> set ws. w \<noteq> []"
  shows "spaced ws seps \<noteq> [] \<and> hd (spaced ws seps) = hd (hd ws)
         \<and> last (spaced ws seps) = last (last ws)"
  using assms by (induction ws seps rule: spaced.induct) auto

lemma spaced_set:
  "c \<in> set (spaced ws seps) \<Longrightarrow> (\<exists>w \<in> set ws. c \<in> set w) \<or> (\<exists>s \<in> set seps. c \<in> set s)"
  by (induction ws seps rule: spaced.induct) auto

lemma split_ws_spaced:
  assumes "ws \<noteq> []" "\<forall>w \<in> set ws. w \<noteq> [] \<and> list_all (\<lambda>c. \<not> is_space c) w"
    and "length seps + 1 = length ws" "\<forall>s \<in> set seps. s \<noteq> [] \<and> list_all is_space s"
  shows "split_ws (spaced ws seps) = ws"
  using assms
proof (induction ws seps rule: spaced.induct)
  case (1 seps)
  then show ?case by simp
next
  case (2 w seps)
  then show ?case by (simp add: split_ws_none)
next
  case (3 w v ws)
  then show ?case by simp
next
  case (4 w v ws s seps)
  let ?b = "spaced (v # ws) seps"
  have e: "?b \<noteq> [] \<and> hd ?b = hd (hd (v # ws)) \<and> last ?b = last (last (v # ws))"
    using 4(2,3) by (intro spaced_ends) simp_all
  then have h: "?b \<noteq> []" "\<not> is_space (hd ?b)"
    using 4(3) by (cases v; auto)+
  have "split_ws (w @ s @ ?b) = w # split_ws ?b"
    using 4(3,5) h by (intro split_ws_token) simp_all
  moreover have "split_ws ?b = v # ws"
    using 4 by simp
  ultimately show ?case by simp
qed

lemma join_spaced: "join [32] ws = spaced ws (replicate (length ws - 1) [32])"
  by (induction "[32::nat]" ws rule: join.induct) simp_all

lemma parse_words_rule:
  assumes "ws \<noteq> []" "\<forall>w \<in> set ws. w \<noteq> [] \<and> list_all (\<lambda>c. \<not> is_space c \<and> c \<noteq> comma) w"
    and "length seps + 1 = length ws" "\<forall>s \<in> set seps. s \<noteq> [] \<and> list_all is_space s"
    and "list_all is_space lead" "list_all is_space trail"
  shows "parse_input (lead @ spaced ws seps @ trail) =
           Inr (case (if 1 < length ws then match_count (last ws) else None) of
                  Some ds \<Rightarrow>
                    if 1 \<le> parseInt ds \<and> parseInt ds \<le> 20
                    then (spaced (butlast ws) (replicate (length ws - 2) [32]), parseInt ds)
                    else (spaced ws seps, 3)
                | None \<Rightarrow> (spaced ws seps, 3))"
proof -
  let ?x = "spaced ws seps"
  have w: "\<forall>w \<in> set ws. w \<noteq> []" "\<forall>w \<in> set ws. w \<noteq> [] \<and> list_all (\<lambda>c. \<not> is_space c) w"
    using assms(2) by (auto simp: list_all_iff)
  have e: "?x \<noteq> []" "hd ?x = hd (hd ws)" "last ?x = last (last ws)"
    using spaced_ends [OF assms(1) w(1), of seps] by simp_all
  have hw: "hd ws \<in> set ws" "last ws \<in> set ws"
    using assms(1) by simp_all
  have n: "\<not> is_space (hd ?x)" "\<not> is_space (last ?x)"
    using assms(2) hw e(2,3) by (auto simp: list_all_iff)
  have input: "trim (lead @ ?x @ trail) = ?x"
    using assms(5,6) n by (intro trim_unique) simp_all
  have nc: "comma \<notin> set ?x"
    using assms(2,4) by (auto simp: list_all_iff dest!: spaced_set dest: space_not_comma)
  have parts: "split_ws ?x = ws"
    using assms(1) w(2) assms(3,4) by (rule split_ws_spaced)
  show ?thesis
  proof (cases "1 < length ws")
    case False
    then show ?thesis
      using e(1) by (simp add: parse_input_def input nc parts Let_def)
  next
    case True
    then have b: "butlast ws \<noteq> []"
      by (cases ws) auto
    have bw: "\<forall>w \<in> set (butlast ws). w \<noteq> []"
      using w(1) by (auto dest: in_set_butlastD)
    let ?k = "spaced (butlast ws) (replicate (length ws - 2) [32])"
    have j: "join [32] (butlast ws) = ?k"
      by (simp add: join_spaced numeral_2_eq_2)
    have ke: "?k \<noteq> []" "hd ?k = hd (hd (butlast ws))" "last ?k = last (last (butlast ws))"
      using spaced_ends [OF b bw, of "replicate (length ws - 2) [32]"] by simp_all
    have "hd (butlast ws) \<in> set ws" "last (butlast ws) \<in> set ws"
      using b by (meson hd_in_set last_in_set in_set_butlastD)+
    then have "\<not> is_space (hd ?k)" "\<not> is_space (last ?k)"
      using assms(2) ke(2,3) by (auto simp: list_all_iff)
    then have "trim ?k = ?k"
      using ke(1) by (intro trim_fixed)
    then show ?thesis
      using True e(1) ke(1)
      by (simp add: parse_input_def input nc parts Let_def j Suc_le_eq split: option.splits)
  qed
qed

lemma first_word:
  assumes "s \<noteq> []" "\<not> is_space (hd s)"
  shows "\<exists>w rest. s = w @ rest \<and> w \<noteq> [] \<and> list_all (\<lambda>c. \<not> is_space c) w
           \<and> (rest = [] \<or> is_space (hd rest))"
proof -
  let ?w = "takeWhile (\<lambda>c. \<not> is_space c) s"
  let ?rest = "dropWhile (\<lambda>c. \<not> is_space c) s"
  have "s = ?w @ ?rest"
    by simp
  moreover have "?w \<noteq> []"
    using assms by (cases s) auto
  moreover have "list_all (\<lambda>c. \<not> is_space c) ?w"
    by (auto simp: list_all_iff dest: set_takeWhileD)
  moreover have "?rest = [] \<or> is_space (hd ?rest)"
    using hd_dropWhile [of "\<lambda>c. \<not> is_space c" s] by blast
  ultimately show ?thesis
    by blast
qed

lemma first_gap:
  assumes "r \<noteq> []" "is_space (hd r)" "\<not> is_space (last r)"
  shows "\<exists>x t. r = x @ t \<and> x \<noteq> [] \<and> list_all is_space x \<and> t \<noteq> [] \<and> \<not> is_space (hd t)"
proof -
  let ?x = "takeWhile is_space r"
  let ?t = "dropWhile is_space r"
  have "r = ?x @ ?t"
    by simp
  moreover have "?x \<noteq> []"
    using assms(1,2) by (cases r) auto
  moreover have "list_all is_space ?x"
    by (auto simp: list_all_iff dest: set_takeWhileD)
  moreover have t: "?t \<noteq> []"
  proof
    assume "?t = []"
    then have "\<forall>c \<in> set r. is_space c"
      by (simp add: dropWhile_eq_Nil_conv)
    with assms(1) have "is_space (last r)"
      by (meson last_in_set)
    with assms(3) show False
      by simp
  qed
  moreover have "\<not> is_space (hd ?t)"
    using t by (rule hd_dropWhile)
  ultimately show ?thesis
    by blast
qed

lemma words_decomp:
  "s \<noteq> [] \<Longrightarrow> \<not> is_space (hd s) \<Longrightarrow> \<not> is_space (last s) \<Longrightarrow>
   \<exists>ws seps. s = spaced ws seps \<and> ws \<noteq> []
     \<and> (\<forall>w \<in> set ws. w \<noteq> [] \<and> list_all (\<lambda>c. \<not> is_space c) w \<and> set w \<subseteq> set s)
     \<and> length seps + 1 = length ws \<and> (\<forall>x \<in> set seps. x \<noteq> [] \<and> list_all is_space x)"
proof (induction s rule: length_induct)
  case (1 s)
  obtain w rest where w: "s = w @ rest" "w \<noteq> []" "list_all (\<lambda>c. \<not> is_space c) w"
      "rest = [] \<or> is_space (hd rest)"
    using first_word [OF 1(2,3)] by blast
  show ?case
  proof (cases "rest = []")
    case True
    with w have "s = spaced [w] [] \<and> [w] \<noteq> []
     \<and> (\<forall>v \<in> set [w]. v \<noteq> [] \<and> list_all (\<lambda>c. \<not> is_space c) v \<and> set v \<subseteq> set s)
     \<and> length ([]::jsstring list) + 1 = length [w]
     \<and> (\<forall>x \<in> set ([]::jsstring list). x \<noteq> [] \<and> list_all is_space x)"
      by simp
    then show ?thesis
      by blast
  next
    case False
    with w(1,4) 1(4) have r: "is_space (hd rest)" "\<not> is_space (last rest)"
      by simp_all
    obtain x t where x: "rest = x @ t" "x \<noteq> []" "list_all is_space x" "t \<noteq> []"
        "\<not> is_space (hd t)"
      using first_gap [OF False r] by blast
    have lt: "\<not> is_space (last t)"
      using r(2) x(1,4) by simp
    have "length t < length s"
      using w(1,2) x(1) by simp
    with 1(1) x(4,5) lt obtain ws seps where d: "t = spaced ws seps" "ws \<noteq> []"
        "\<forall>v \<in> set ws. v \<noteq> [] \<and> list_all (\<lambda>c. \<not> is_space c) v \<and> set v \<subseteq> set t"
        "length seps + 1 = length ws" "\<forall>y \<in> set seps. y \<noteq> [] \<and> list_all is_space y"
      by blast
    obtain v vs where v: "ws = v # vs"
      using d(2) by (cases ws) auto
    have "s = spaced (w # ws) (x # seps)"
      using w(1) x(1) d(1) v by simp
    moreover have "\<forall>u \<in> set (w # ws). u \<noteq> [] \<and> list_all (\<lambda>c. \<not> is_space c) u \<and> set u \<subseteq> set s"
      using w(1,2,3) x(1) d(3) by auto
    moreover have "length (x # seps) + 1 = length (w # ws)"
      using d(4) by simp
    moreover have "\<forall>y \<in> set (x # seps). y \<noteq> [] \<and> list_all is_space y"
      using x(2,3) d(5) by simp
    ultimately show ?thesis
      by blast
  qed
qed

lemma trim_empty_blank: "trim s = [] \<Longrightarrow> list_all is_space s"
proof -
  assume e: "trim s = []"
  obtain l r where d: "l @ trim s @ r = s" "list_all is_space l" "list_all is_space r"
    using trim_decomp by blast
  from d(1) e have "s = l @ r"
    by simp
  with d(2,3) show ?thesis
    by simp
qed

lemma input_forms:
  "list_all is_space raw
   \<or> (\<exists>a b. raw = a @ comma # b \<and> comma \<notin> set a)
   \<or> (\<exists>lead ws seps trail. raw = lead @ spaced ws seps @ trail \<and> ws \<noteq> []
        \<and> (\<forall>w \<in> set ws. w \<noteq> [] \<and> list_all (\<lambda>c. \<not> is_space c \<and> c \<noteq> comma) w)
        \<and> length seps + 1 = length ws \<and> (\<forall>s \<in> set seps. s \<noteq> [] \<and> list_all is_space s)
        \<and> list_all is_space lead \<and> list_all is_space trail)"
proof (cases "comma \<in> set raw")
  case True
  then show ?thesis
    by (meson split_list_first)
next
  case False
  show ?thesis
  proof (cases "trim raw = []")
    case True
    then show ?thesis
      by (simp add: trim_empty_blank)
  next
    case nonblank: False
    obtain l r where d: "l @ trim raw @ r = raw" "list_all is_space l" "list_all is_space r"
      using trim_decomp by blast
    obtain ws seps where w: "trim raw = spaced ws seps" "ws \<noteq> []"
        "\<forall>w \<in> set ws. w \<noteq> [] \<and> list_all (\<lambda>c. \<not> is_space c) w \<and> set w \<subseteq> set (trim raw)"
        "length seps + 1 = length ws" "\<forall>x \<in> set seps. x \<noteq> [] \<and> list_all is_space x"
      using words_decomp [OF nonblank trim_ends [OF nonblank]] by blast
    have "\<forall>w \<in> set ws. w \<noteq> [] \<and> list_all (\<lambda>c. \<not> is_space c \<and> c \<noteq> comma) w"
    proof
      fix x
      assume "x \<in> set ws"
      with w(3) have "x \<noteq> []" "list_all (\<lambda>c. \<not> is_space c) x" "set x \<subseteq> set (trim raw)"
        by auto
      moreover have "comma \<notin> set (trim raw)"
        using False trim_subset by blast
      ultimately show "x \<noteq> [] \<and> list_all (\<lambda>c. \<not> is_space c \<and> c \<noteq> comma) x"
        by (auto simp: list_all_iff)
    qed
    moreover have "raw = l @ spaced ws seps @ r"
      using d(1) w(1) by simp
    ultimately have "\<exists>lead ws seps trail. raw = lead @ spaced ws seps @ trail \<and> ws \<noteq> []
        \<and> (\<forall>w \<in> set ws. w \<noteq> [] \<and> list_all (\<lambda>c. \<not> is_space c \<and> c \<noteq> comma) w)
        \<and> length seps + 1 = length ws \<and> (\<forall>s \<in> set seps. s \<noteq> [] \<and> list_all is_space s)
        \<and> list_all is_space lead \<and> list_all is_space trail"
      using w(2,4,5) d(2,3) by blast
    then show ?thesis
      by blast
  qed
qed

lemmas parse_eval = parse_input_def trim_def ascii_def is_space_def is_digit_def comma_def
  match_count_def parseInt_def count_nouns_def ci_starts_with_def canonicalize_def Let_def

section \<open>Facts about the handlers\<close>

lemma error_text_nonempty: "fallback \<noteq> [] \<Longrightarrow> error_text err fallback \<noteq> []"
  by (simp add: error_text_def or_else_def split: option.splits)

lemma poll_error:
  "get_response net = Inl err \<Longrightarrow>
   pollTaskStatus render st i net =
     (st\<lparr>pollingInterval := None, isLoading := False,
         error := Some (error_text err (ascii ''Failed to fetch task status''))\<rparr>,
      [GetSearchTask i])"
  by (simp add: pollTaskStatus_def)

lemma submit_invalid:
  "\<not> in_progress st \<Longrightarrow> parse_input (keyword st) = Inl e \<Longrightarrow>
   handleSearch st net = (st\<lparr>error := Some (validation_text e)\<rparr>, [])"
  by (simp add: handleSearch_def)

lemma submit_create_failed:
  "\<not> in_progress st \<Longrightarrow> parse_input (keyword st) = Inr (kw, n) \<Longrightarrow>
   create_response net = Inl err \<Longrightarrow>
   handleSearch st net =
     (st\<lparr>activeView := ActiveView, historyPage := 1, isLoading := False,
         error := Some (error_text err (ascii ''Failed to create search task'')),
         status := None, results := [], taskId := None, taskKeyword := None,
         pollingInterval := None\<rparr>,
      [CreateSearchTask kw n])"
  by (simp add: handleSearch_def Let_def)

section \<open>Facts about the pages of History\<close>

lemma ceil_div3_eq: "ceil_div3 n = (int n + 2) div 3"
  unfolding ceil_div3_def by linarith

lemma max_page_or_1_eq: "max_page_or_1 n = max 1 (ceil_div3 n)"
  by (simp add: max_page_or_1_def Let_def ceil_div3_eq)

lemma reset_page_in_range:
  assumes "activeView st = HistoryView" "historyTasks st \<noteq> []" "1 \<le> historyPage st"
  shows "1 \<le> historyPage (reset_page_effect st)"
    and "historyPage (reset_page_effect st) \<le> max_page_or_1 (length (historyTasks st))"
  using assms
  by (auto simp: reset_page_effect_def Let_def max_page_or_1_def ceil_div3_eq)

lemma reset_page_skip:
  "activeView st \<noteq> HistoryView \<or> historyTasks st = [] \<Longrightarrow> reset_page_effect st = st"
  by (auto simp: reset_page_effect_def)

lemma next_page_last:
  "historyPage st = max_page_or_1 (length (historyTasks st)) \<Longrightarrow> next_page st = st"
  by (auto simp: next_page_def pager_shown_def max_page_or_1_def Let_def ceil_div3_eq)

lemma previous_page_first: "historyPage st = 1 \<Longrightarrow> previous_page st = st"
  by (simp add: previous_page_def)

lemma pages_stay_in_range:
  assumes "1 \<le> historyPage st" "historyPage st \<le> max_page_or_1 (length (historyTasks st))"
  shows "1 \<le> historyPage (next_page st)"
    and "historyPage (next_page st) \<le> max_page_or_1 (length (historyTasks (next_page st)))"
    and "1 \<le> historyPage (previous_page st)"
    and "historyPage (previous_page st) \<le> max_page_or_1 (length (historyTasks (previous_page st)))"
  using assms
  by (auto simp: next_page_def previous_page_def pager_shown_def max_page_or_1_def Let_def ceil_div3_eq)

section \<open>Facts about \<open>getPdfUrl\<close>\<close>



lemma starts_with_same: "starts_with (p @ r) p"
  by (simp add: starts_with_def)










section \<open>Claims\<close>

text \<open>
  C1 asks that a job which History holds as completed or failed is still in History after
  a pass, also when the fetched collection omits it. The pass seeds its map from the
  \<open>historyTasks\<close> its closure holds, not from the History on screen, and then overwrites
  History. Failing run: the timer installed at mount holds \<open>historyTasks = []\<close>; its first
  pass fetches the completed job \<open>a\<close>, and History is \<open>[a]\<close>; its next pass fetches an
  empty collection, and History is empty: the job is lost.
\<close>

theorem C1_stale_seed_loses_job:
  "historyTasks (fst (loadTasks (historyTasks initial_state) initial_state 1000
       (Inr (TaskArray [example_task ''a'' ''completed'' 0]))))
     = [example_task ''a'' ''completed'' 0]
   \<and> is_terminal (example_task ''a'' ''completed'' 0)
   \<and> historyTasks (fst (loadTasks (historyTasks initial_state)
        (fst (loadTasks (historyTasks initial_state) initial_state 1000
           (Inr (TaskArray [example_task ''a'' ''completed'' 0]))))
        6000 (Inr (TaskArray []))))
     = []"
  by (simp add: loadTasks_def tasks_of_payload_def build_history_def set_each_def
      stuckTasks_def stuck_pred_def is_in_flight_def is_terminal_def
      example_task_def initial_state_def map_values_def sort_newest_first_def ascii_def)

text \<open>
  C2, as the source has it. The claim puts the boundary at \<open>now - createdAt \<ge> T\<close>; the
  filters of \<open>loadTasks\<close> test \<open>taskAge > STUCK_TASK_TIMEOUT\<close>, and the filter of the stuck
  tasks leaves out the ids of the removal ledger. Counterexample: at an age of exactly
  15 minutes a pending job is in Active and no entry for it is in History; a dismissed
  pending job older than that is in neither.
\<close>

theorem C2_boundary_counterexample:
  "900000 - created_at (example_task ''a'' ''pending'' 0) \<ge> STUCK_TASK_TIMEOUT
   \<and> example_task ''a'' ''pending'' 0 \<in> set (activeTasks (fst (loadTasks [] initial_state 900000
        (Inr (TaskArray [example_task ''a'' ''pending'' 0])))))
   \<and> historyTasks (fst (loadTasks [] initial_state 900000
        (Inr (TaskArray [example_task ''a'' ''pending'' 0])))) = []
   \<and> historyTasks (fst (loadTasks [] (initial_state\<lparr>removedTaskIds := {ascii ''a''}\<rparr>) 900001
        (Inr (TaskArray [example_task ''a'' ''pending'' 0])))) = []"
  by (simp add: loadTasks_def tasks_of_payload_def build_history_def set_each_def
      stuckTasks_def stuck_pred_def active_pred_def is_in_flight_def is_terminal_def
      STUCK_TASK_TIMEOUT_def example_task_def initial_state_def map_values_def
      sort_newest_first_def ascii_def)

text \<open>
  C2, amended. For a job of the fetched collection with status pending or processing:
  it is in Active iff its id is not in the removal ledger and \<open>now - createdAt \<le> T\<close>;
  if \<open>now - createdAt > T\<close> and its id is not in the ledger, History holds a copy with
  status failed of an entry of that id (of the job itself when the ids of the collection
  are distinct); and the pass issues no write to the backing store.
\<close>

theorem C2_partition_at_timeout:
  assumes "t \<in> set (tasks_of_payload tasks)" and "is_in_flight t"
  shows "(t \<in> set (activeTasks (fst (loadTasks seen st now (Inr tasks)))) \<longleftrightarrow>
            task_id t \<notin> removedTaskIds st \<and> now - created_at t \<le> STUCK_TASK_TIMEOUT)
       \<and> (now - created_at t > STUCK_TASK_TIMEOUT \<and> task_id t \<notin> removedTaskIds st \<longrightarrow>
            t \<notin> set (activeTasks (fst (loadTasks seen st now (Inr tasks))))
            \<and> (\<exists>u \<in> set (tasks_of_payload tasks). task_id u = task_id t
                 \<and> u\<lparr>task_status := ascii ''failed''\<rparr>
                      \<in> set (historyTasks (fst (loadTasks seen st now (Inr tasks)))))
            \<and> (distinct (map task_id (tasks_of_payload tasks)) \<longrightarrow>
                 t\<lparr>task_status := ascii ''failed''\<rparr>
                   \<in> set (historyTasks (fst (loadTasks seen st now (Inr tasks))))))
       \<and> list_all (\<lambda>c. \<not> is_write c) (snd (loadTasks seen st now (Inr tasks)))"
proof -
  let ?L = "tasks_of_payload tasks"
  let ?R = "removedTaskIds st"
  have act: "activeTasks (fst (loadTasks seen st now (Inr tasks))) = filter (active_pred ?R now) ?L"
    by (simp add: loadTasks_def Let_def)
  have hist: "historyTasks (fst (loadTasks seen st now (Inr tasks)))
                = build_history seen ?R now ?L"
    by (simp add: loadTasks_def Let_def)
  have a: "t \<in> set (filter (active_pred ?R now) ?L) \<longleftrightarrow>
             task_id t \<notin> ?R \<and> now - created_at t \<le> STUCK_TASK_TIMEOUT"
    using assms by (simp only: active_iff) simp
  have b: "\<exists>u \<in> set ?L. task_id u = task_id t
             \<and> u\<lparr>task_status := ascii ''failed''\<rparr> \<in> set (build_history seen ?R now ?L)"
    if "now - created_at t > STUCK_TASK_TIMEOUT" "task_id t \<notin> ?R"
  proof -
    from that assms have "stuck_pred ?R now t"
      by (simp add: stuck_pred_def)
    from stuck_copy_in_history [OF assms(1) this] show ?thesis
      by blast
  qed
  have c: "t\<lparr>task_status := ascii ''failed''\<rparr> \<in> set (build_history seen ?R now ?L)"
    if "now - created_at t > STUCK_TASK_TIMEOUT" "task_id t \<notin> ?R" "distinct (map task_id ?L)"
  proof -
    from b [OF that(1,2)] obtain u where u: "u \<in> set ?L" "task_id u = task_id t"
        "u\<lparr>task_status := ascii ''failed''\<rparr> \<in> set (build_history seen ?R now ?L)"
      by blast
    from that(3) have "inj_on task_id (set ?L)"
      by (simp add: distinct_map)
    with u(1,2) assms(1) have "u = t"
      by (auto dest: inj_onD)
    with u(3) show ?thesis by simp
  qed
  have d: "list_all (\<lambda>c. \<not> is_write c) (snd (loadTasks seen st now (Inr tasks)))"
    by (simp add: loadTasks_def Let_def)
  show ?thesis
    unfolding act hist using a b c d by auto
qed

text \<open>
  Witness for C2: a fresh pending job \<open>a\<close> and a pending job \<open>b\<close> that is 16 minutes old.
\<close>

theorem C2_partition_at_timeout_witness:
  "example_task ''b'' ''pending'' 0
     \<in> set (tasks_of_payload (TaskArray [example_task ''a'' ''pending'' 900000, example_task ''b'' ''pending'' 0]))
   \<and> is_in_flight (example_task ''b'' ''pending'' 0)
   \<and> example_task ''b'' ''pending'' 0 \<notin> set (activeTasks (fst (loadTasks [] initial_state 960000
        (Inr (TaskArray [example_task ''a'' ''pending'' 900000, example_task ''b'' ''pending'' 0])))))
   \<and> example_task ''b'' ''failed'' 0 \<in> set (historyTasks (fst (loadTasks [] initial_state 960000
        (Inr (TaskArray [example_task ''a'' ''pending'' 900000, example_task ''b'' ''pending'' 0])))))"
proof -
  let ?tasks = "TaskArray [example_task ''a'' ''pending'' 900000, example_task ''b'' ''pending'' 0]"
  have m: "example_task ''b'' ''pending'' 0 \<in> set (tasks_of_payload ?tasks)"
    by (simp add: tasks_of_payload_def)
  have f: "is_in_flight (example_task ''b'' ''pending'' 0)"
    by (simp add: is_in_flight_def example_task_def)
  have d: "distinct (map task_id (tasks_of_payload ?tasks))"
    by (simp add: tasks_of_payload_def example_task_def ascii_def)
  have r: "(example_task ''b'' ''pending'' 0)\<lparr>task_status := ascii ''failed''\<rparr>
             = example_task ''b'' ''failed'' 0"
    by (simp add: example_task_def)
  have o: "960000 - created_at (example_task ''b'' ''pending'' 0) > STUCK_TASK_TIMEOUT"
       "task_id (example_task ''b'' ''pending'' 0) \<notin> removedTaskIds initial_state"
    by (simp_all add: example_task_def STUCK_TASK_TIMEOUT_def initial_state_def)
  show ?thesis
    using m f d o C2_partition_at_timeout [OF m f, where st = initial_state and now = 960000 and seen = "[]"]
    by (simp only: r) blast
qed

text \<open>
  C4. A second pass with the same fetched collection, removal ledger and time, seeded with
  the History of the first pass, yields the same History (and the same state).
\<close>

theorem C4_merge_idempotent:
  "historyTasks (fst (loadTasks (historyTasks (fst (loadTasks seen st now response)))
       (fst (loadTasks seen st now response)) now response))
     = historyTasks (fst (loadTasks seen st now response))
   \<and> fst (loadTasks (historyTasks (fst (loadTasks seen st now response)))
       (fst (loadTasks seen st now response)) now response)
     = fst (loadTasks seen st now response)"
  by (cases response) (simp_all add: loadTasks_def Let_def build_history_idem)

text \<open>
  C5 asks that the removal ledger affects the Active view only, so that History is the
  same whether or not an id is in the ledger. The filter of the stuck tasks skips the ids
  of the ledger. Failing input: one pending job \<open>a\<close>, 16 minutes old. With an empty ledger
  History holds its failed copy; with \<open>a\<close> in the ledger the job is neither in History nor
  in Active.
\<close>

theorem C5_dismissed_stuck_job_lost:
  "historyTasks (fst (loadTasks [] initial_state 960000
       (Inr (TaskArray [example_task ''a'' ''pending'' 0]))))
     = [example_task ''a'' ''failed'' 0]
   \<and> historyTasks (fst (loadTasks [] (initial_state\<lparr>removedTaskIds := {ascii ''a''}\<rparr>) 960000
       (Inr (TaskArray [example_task ''a'' ''pending'' 0]))))
     = []
   \<and> activeTasks (fst (loadTasks [] (initial_state\<lparr>removedTaskIds := {ascii ''a''}\<rparr>) 960000
       (Inr (TaskArray [example_task ''a'' ''pending'' 0]))))
     = []"
  by (simp add: loadTasks_def tasks_of_payload_def build_history_def set_each_def
      stuckTasks_def stuck_pred_def active_pred_def is_in_flight_def is_terminal_def
      STUCK_TASK_TIMEOUT_def example_task_def initial_state_def map_values_def
      sort_newest_first_def ascii_def)

text \<open>
  C3. The input parser follows the rules of the specification on every input. Every input
  is blank, or has a first comma, or is a row of words. A blank input is the validation
  error. With a comma, the text before the first comma, trimmed, is the keyword (an empty
  one is an error) and the trimmed text after it is the count clause; a further comma
  leaves the count at 3. Without a comma, a last word that matches the count pattern with
  a number in 1..20 is the count, and the words before it, joined by single spaces, are
  the keyword, provided there is a word before it; otherwise the whole trimmed input is
  the keyword. The count pattern is: digits, white space, optionally one of the nouns in
  any case, white space. A number outside 1..20 or a clause that does not match gives the
  count 3, never a clamped value, and every count returned lies in 1..20. The examples of
  the specification evaluate as it says.
\<close>

theorem C3_input_parser:
  "(\<forall>raw. list_all is_space raw
       \<or> (\<exists>a b. raw = a @ comma # b \<and> comma \<notin> set a)
       \<or> (\<exists>lead ws seps trail. raw = lead @ spaced ws seps @ trail \<and> ws \<noteq> []
            \<and> (\<forall>w \<in> set ws. w \<noteq> [] \<and> list_all (\<lambda>c. \<not> is_space c \<and> c \<noteq> comma) w)
            \<and> length seps + 1 = length ws \<and> (\<forall>s \<in> set seps. s \<noteq> [] \<and> list_all is_space s)
            \<and> list_all is_space lead \<and> list_all is_space trail))
   \<and> (\<forall>raw. list_all is_space raw \<longrightarrow> parse_input raw = Inl EnterKeyword)
   \<and> (\<forall>a b. comma \<notin> set a \<longrightarrow>
         parse_input (a @ comma # b) =
           (if trim a = [] then Inl EnterValidKeyword
            else Inr (trim a,
                      if comma \<in> set b then 3
                      else (case match_count (trim b) of
                              Some ds \<Rightarrow> if 1 \<le> parseInt ds \<and> parseInt ds \<le> 20 then parseInt ds else 3
                            | None \<Rightarrow> 3))))
   \<and> (\<forall>lead ws seps trail.
         ws \<noteq> [] \<and> (\<forall>w \<in> set ws. w \<noteq> [] \<and> list_all (\<lambda>c. \<not> is_space c \<and> c \<noteq> comma) w)
         \<and> length seps + 1 = length ws \<and> (\<forall>s \<in> set seps. s \<noteq> [] \<and> list_all is_space s)
         \<and> list_all is_space lead \<and> list_all is_space trail \<longrightarrow>
         parse_input (lead @ spaced ws seps @ trail) =
           Inr (case (if 1 < length ws then match_count (last ws) else None) of
                  Some ds \<Rightarrow>
                    if 1 \<le> parseInt ds \<and> parseInt ds \<le> 20
                    then (spaced (butlast ws) (replicate (length ws - 2) [32]), parseInt ds)
                    else (spaced ws seps, 3)
                | None \<Rightarrow> (spaced ws seps, 3)))
   \<and> (\<forall>c ds. match_count c = Some ds \<longleftrightarrow>
         ds \<noteq> [] \<and> list_all is_digit ds
         \<and> (\<exists>ws tail ws'. c = ds @ ws @ tail @ ws' \<and> list_all is_space ws \<and> list_all is_space ws'
               \<and> (tail = [] \<or> (\<exists>noun \<in> set count_nouns. list_all2 same_letter tail noun))))
   \<and> parseInt [] = 0
   \<and> (\<forall>ds d. parseInt (ds @ [d]) = 10 * parseInt ds + (d - 48))
   \<and> (\<forall>raw k n. parse_input raw = Inr (k, n) \<longrightarrow> 1 \<le> n \<and> n \<le> 20)
   \<and> (\<forall>k ws ds tail.
         k \<noteq> [] \<and> trim k = k \<and> comma \<notin> set k \<and> list_all is_space ws
         \<and> ds \<noteq> [] \<and> list_all is_digit ds
         \<and> (tail = [] \<or> (\<exists>ws' noun. list_all is_space ws' \<and> noun \<in> set count_nouns
                                      \<and> tail = ws' @ noun)) \<longrightarrow>
         parse_input (k @ comma # ws @ ds @ tail)
           = Inr (k, if 1 \<le> parseInt ds \<and> parseInt ds \<le> 20 then parseInt ds else 3))
   \<and> (\<forall>s. s \<noteq> [] \<and> list_all (\<lambda>c. \<not> is_space c \<and> c \<noteq> comma) s \<longrightarrow>
         parse_input s = Inr (s, 3))
   \<and> (\<forall>ds. ds \<noteq> [] \<and> list_all is_digit ds \<longrightarrow> parse_input ds = Inr (ds, 3))
   \<and> parse_input (ascii ''Chopin, 5'') = Inr (ascii ''Chopin'', 5)
   \<and> parse_input (ascii ''Economy, 10 '' @ [1089, 1090, 1072, 1090, 1077, 1081])
       = Inr (ascii ''Economy'', 10)
   \<and> parse_input (ascii ''Tech'') = Inr (ascii ''Tech'', 3)
   \<and> parse_input (ascii ''A, 99'') = Inr (ascii ''A'', 3)
   \<and> parse_input (ascii ''   '') = Inl EnterKeyword
   \<and> parse_input (ascii ''5'') = Inr (ascii ''5'', 3)
   \<and> parse_input (ascii ''New York 5'') = Inr (ascii ''New York'', 5)
   \<and> parse_input (ascii ''New York 99'') = Inr (ascii ''New York 99'', 3)
   \<and> parse_input (ascii ''Rome, 5 dogs'') = Inr (ascii ''Rome'', 3)
   \<and> parse_input (ascii ''Rome, 5, 6'') = Inr (ascii ''Rome'', 3)
   \<and> parse_input (ascii ''Rome, 5 ARTICLES'') = Inr (ascii ''Rome'', 5)
   \<and> parse_input (ascii ''Rome, 5 article'') = Inr (ascii ''Rome'', 5)
   \<and> parse_input (ascii ''Rome, 5 '' @ [1089, 1090, 1072, 1090, 1100, 1080]) = Inr (ascii ''Rome'', 5)
   \<and> parse_input (ascii ''Rome, 5 '' @ [1089, 1090, 1072, 1090, 1100, 1103]) = Inr (ascii ''Rome'', 5)
   \<and> parse_input (ascii ''Rome, 5 '' @ [1057, 1058, 1040, 1058, 1045, 1049]) = Inr (ascii ''Rome'', 5)"
proof -
  have f: "\<forall>raw. list_all is_space raw
       \<or> (\<exists>a b. raw = a @ comma # b \<and> comma \<notin> set a)
       \<or> (\<exists>lead ws seps trail. raw = lead @ spaced ws seps @ trail \<and> ws \<noteq> []
            \<and> (\<forall>w \<in> set ws. w \<noteq> [] \<and> list_all (\<lambda>c. \<not> is_space c \<and> c \<noteq> comma) w)
            \<and> length seps + 1 = length ws \<and> (\<forall>s \<in> set seps. s \<noteq> [] \<and> list_all is_space s)
            \<and> list_all is_space lead \<and> list_all is_space trail)"
    by (intro allI input_forms)
  have g1: "\<forall>raw. list_all is_space raw \<longrightarrow> parse_input raw = Inl EnterKeyword"
    by (simp add: parse_blank)
  have a: "\<forall>a b. comma \<notin> set a \<longrightarrow>
         parse_input (a @ comma # b) =
           (if trim a = [] then Inl EnterValidKeyword
            else Inr (trim a,
                      if comma \<in> set b then 3
                      else (case match_count (trim b) of
                              Some ds \<Rightarrow> if 1 \<le> parseInt ds \<and> parseInt ds \<le> 20 then parseInt ds else 3
                            | None \<Rightarrow> 3)))"
    by (intro allI impI parse_comma_rule)
  have b: "\<forall>lead ws seps trail.
         ws \<noteq> [] \<and> (\<forall>w \<in> set ws. w \<noteq> [] \<and> list_all (\<lambda>c. \<not> is_space c \<and> c \<noteq> comma) w)
         \<and> length seps + 1 = length ws \<and> (\<forall>s \<in> set seps. s \<noteq> [] \<and> list_all is_space s)
         \<and> list_all is_space lead \<and> list_all is_space trail \<longrightarrow>
         parse_input (lead @ spaced ws seps @ trail) =
           Inr (case (if 1 < length ws then match_count (last ws) else None) of
                  Some ds \<Rightarrow>
                    if 1 \<le> parseInt ds \<and> parseInt ds \<le> 20
                    then (spaced (butlast ws) (replicate (length ws - 2) [32]), parseInt ds)
                    else (spaced ws seps, 3)
                | None \<Rightarrow> (spaced ws seps, 3))"
  proof (intro allI impI)
    fix lead ws seps trail
    assume h: "ws \<noteq> [] \<and> (\<forall>w \<in> set ws. w \<noteq> [] \<and> list_all (\<lambda>c. \<not> is_space c \<and> c \<noteq> comma) w)
         \<and> length seps + 1 = length ws \<and> (\<forall>s \<in> set seps. s \<noteq> [] \<and> list_all is_space s)
         \<and> list_all is_space lead \<and> list_all is_space trail"
    show "parse_input (lead @ spaced ws seps @ trail) =
           Inr (case (if 1 < length ws then match_count (last ws) else None) of
                  Some ds \<Rightarrow>
                    if 1 \<le> parseInt ds \<and> parseInt ds \<le> 20
                    then (spaced (butlast ws) (replicate (length ws - 2) [32]), parseInt ds)
                    else (spaced ws seps, 3)
                | None \<Rightarrow> (spaced ws seps, 3))"
      using h by (intro parse_words_rule) auto
  qed
  have c: "\<forall>c ds. match_count c = Some ds \<longleftrightarrow>
         ds \<noteq> [] \<and> list_all is_digit ds
         \<and> (\<exists>ws tail ws'. c = ds @ ws @ tail @ ws' \<and> list_all is_space ws \<and> list_all is_space ws'
               \<and> (tail = [] \<or> (\<exists>noun \<in> set count_nouns. list_all2 same_letter tail noun)))"
    by (intro allI match_count_iff)
  have d0: "parseInt [] = 0"
    by (simp add: parseInt_def)
  have d: "\<forall>ds d. parseInt (ds @ [d]) = 10 * parseInt ds + (d - 48)"
    by (intro allI parseInt_snoc)
  have g2: "\<forall>raw k n. parse_input raw = Inr (k, n) \<longrightarrow> 1 \<le> n \<and> n \<le> 20"
    using parse_range by blast
  have g3: "\<forall>k ws ds tail.
         k \<noteq> [] \<and> trim k = k \<and> comma \<notin> set k \<and> list_all is_space ws
         \<and> ds \<noteq> [] \<and> list_all is_digit ds
         \<and> (tail = [] \<or> (\<exists>ws' noun. list_all is_space ws' \<and> noun \<in> set count_nouns
                                      \<and> tail = ws' @ noun)) \<longrightarrow>
         parse_input (k @ comma # ws @ ds @ tail)
           = Inr (k, if 1 \<le> parseInt ds \<and> parseInt ds \<le> 20 then parseInt ds else 3)"
    using parse_comma_count by blast
  have g6: "\<forall>s. s \<noteq> [] \<and> list_all (\<lambda>c. \<not> is_space c \<and> c \<noteq> comma) s \<longrightarrow>
         parse_input s = Inr (s, 3)"
    by (simp add: parse_single_token)
  have g7: "\<forall>ds. ds \<noteq> [] \<and> list_all is_digit ds \<longrightarrow> parse_input ds = Inr (ds, 3)"
  proof (intro allI impI)
    fix ds :: jsstring
    assume "ds \<noteq> [] \<and> list_all is_digit ds"
    then have "ds \<noteq> []" "list_all (\<lambda>c. \<not> is_space c \<and> c \<noteq> comma) ds"
      by (auto simp: list_all_iff dest: digit_not_space digit_not_comma)
    then show "parse_input ds = Inr (ds, 3)"
      by (rule parse_single_token)
  qed
  have e1: "parse_input (ascii ''Chopin, 5'') = Inr (ascii ''Chopin'', 5)"
    by (simp add: parse_eval)
  have e2: "parse_input (ascii ''Economy, 10 '' @ [1089, 1090, 1072, 1090, 1077, 1081])
       = Inr (ascii ''Economy'', 10)"
    by (simp add: parse_eval)
  have e3: "parse_input (ascii ''Tech'') = Inr (ascii ''Tech'', 3)"
    by (simp add: parse_eval)
  have e4: "parse_input (ascii ''A, 99'') = Inr (ascii ''A'', 3)"
    by (simp add: parse_eval)
  have e5: "parse_input (ascii ''   '') = Inl EnterKeyword"
    by (simp add: parse_eval)
  have e6: "parse_input (ascii ''5'') = Inr (ascii ''5'', 3)"
    by (simp add: parse_eval)
  have e7: "parse_input (ascii ''New York 5'') = Inr (ascii ''New York'', 5)"
    by (simp add: parse_eval)
  have e8: "parse_input (ascii ''New York 99'') = Inr (ascii ''New York 99'', 3)"
    by (simp add: parse_eval)
  have e9: "parse_input (ascii ''Rome, 5 dogs'') = Inr (ascii ''Rome'', 3)"
    by (simp add: parse_eval)
  have e10: "parse_input (ascii ''Rome, 5, 6'') = Inr (ascii ''Rome'', 3)"
    by (simp add: parse_eval)
  have e11: "parse_input (ascii ''Rome, 5 ARTICLES'') = Inr (ascii ''Rome'', 5)"
    by (simp add: parse_eval)
  have e12: "parse_input (ascii ''Rome, 5 article'') = Inr (ascii ''Rome'', 5)"
    by (simp add: parse_eval)
  have e13: "parse_input (ascii ''Rome, 5 '' @ [1089, 1090, 1072, 1090, 1100, 1080])
       = Inr (ascii ''Rome'', 5)"
    by (simp add: parse_eval)
  have e14: "parse_input (ascii ''Rome, 5 '' @ [1089, 1090, 1072, 1090, 1100, 1103])
       = Inr (ascii ''Rome'', 5)"
    by (simp add: parse_eval)
  have e15: "parse_input (ascii ''Rome, 5 '' @ [1057, 1058, 1040, 1058, 1045, 1049])
       = Inr (ascii ''Rome'', 5)"
    by (simp add: parse_eval)
  from f g1 a b c d0 d g2 g3 g6 g7 e1 e2 e3 e4 e5 e6 e7 e8 e9 e10 e11 e12 e13 e14 e15
  show ?thesis
    by (intro conjI)
qed

text \<open>
  Witness for C3: the rule for a comma at \<open>Rome, 21\<close> (out of range, not clamped to 20),
  the rule for words at \<open>New York 5\<close>, the pattern at \<open>5 Articles\<close>, and a single word of
  digits.
\<close>

theorem C3_input_parser_witness:
  "comma \<notin> set (ascii ''Rome'')
   \<and> parse_input (ascii ''Rome, 21'') = Inr (ascii ''Rome'', 3)
   \<and> parse_input (ascii ''New York 5'') = Inr (ascii ''New York'', 5)
   \<and> match_count (ascii ''5 Articles'') = Some (ascii ''5'')
   \<and> parse_input (ascii ''5'') = Inr (ascii ''5'', 3)
   \<and> (1::nat) \<le> 5 \<and> (5::nat) \<le> 20"
proof -
  note r = C3_input_parser
  note t = r [THEN conjunct2]
  note ra = t [THEN conjunct2, THEN conjunct1, rule_format]
  note rb = t [THEN conjunct2, THEN conjunct2, THEN conjunct1, rule_format]
  note rc = t [THEN conjunct2, THEN conjunct2, THEN conjunct2, THEN conjunct1, rule_format]
  note u = t [THEN conjunct2, THEN conjunct2, THEN conjunct2, THEN conjunct2, THEN conjunct2,
              THEN conjunct2]
  note rg = u [THEN conjunct1, rule_format]
  note rd = u [THEN conjunct2, THEN conjunct2, THEN conjunct2, THEN conjunct1, rule_format]
  note re = u [THEN conjunct2, THEN conjunct2, THEN conjunct2, THEN conjunct2, THEN conjunct1]
  have k: "comma \<notin> set (ascii ''Rome'')"
    by (simp add: ascii_def comma_def)
  have m21: "match_count (trim (ascii '' 21'')) = Some (ascii ''21'')"
    by (simp add: trim_def match_count_def ascii_def is_space_def is_digit_def)
  have p21: "parseInt (ascii ''21'') = 21"
    by (simp add: parseInt_def ascii_def)
  have "parse_input (ascii ''Rome'' @ comma # ascii '' 21'') =
           (if trim (ascii ''Rome'') = [] then Inl EnterValidKeyword
            else Inr (trim (ascii ''Rome''),
                      if comma \<in> set (ascii '' 21'') then 3
                      else (case match_count (trim (ascii '' 21'')) of
                              Some ds \<Rightarrow> if 1 \<le> parseInt ds \<and> parseInt ds \<le> 20 then parseInt ds else 3
                            | None \<Rightarrow> 3)))"
    using k by (rule ra)
  moreover have "trim (ascii ''Rome'') = ascii ''Rome''" "ascii ''Rome'' \<noteq> []"
      "comma \<notin> set (ascii '' 21'')"
      "ascii ''Rome'' @ comma # ascii '' 21'' = ascii ''Rome, 21''"
    by (simp_all add: trim_def ascii_def is_space_def comma_def)
  ultimately have 1: "parse_input (ascii ''Rome, 21'') = Inr (ascii ''Rome'', 3)"
    by (simp add: m21 p21)
  have w: "[ascii ''New'', ascii ''York'', ascii ''5''] \<noteq> []
         \<and> (\<forall>w \<in> set [ascii ''New'', ascii ''York'', ascii ''5''].
               w \<noteq> [] \<and> list_all (\<lambda>c. \<not> is_space c \<and> c \<noteq> comma) w)
         \<and> length [ascii '' '', ascii '' ''] + 1 = length [ascii ''New'', ascii ''York'', ascii ''5'']
         \<and> (\<forall>s \<in> set [ascii '' '', ascii '' '']. s \<noteq> [] \<and> list_all is_space s)
         \<and> list_all is_space [] \<and> list_all is_space []"
    by (simp add: ascii_def is_space_def comma_def)
  have m5: "match_count (ascii ''5'') = Some (ascii ''5'')"
    by (simp add: match_count_def ascii_def is_space_def is_digit_def)
  have p5: "parseInt (ascii ''5'') = 5"
    by (simp add: parseInt_def ascii_def)
  have "parse_input ([] @ spaced [ascii ''New'', ascii ''York'', ascii ''5'']
            [ascii '' '', ascii '' ''] @ []) =
           Inr (case (if 1 < length [ascii ''New'', ascii ''York'', ascii ''5'']
                      then match_count (last [ascii ''New'', ascii ''York'', ascii ''5'']) else None) of
                  Some ds \<Rightarrow>
                    if 1 \<le> parseInt ds \<and> parseInt ds \<le> 20
                    then (spaced (butlast [ascii ''New'', ascii ''York'', ascii ''5''])
                            (replicate (length [ascii ''New'', ascii ''York'', ascii ''5''] - 2) [32]),
                          parseInt ds)
                    else (spaced [ascii ''New'', ascii ''York'', ascii ''5''] [ascii '' '', ascii '' ''], 3)
                | None \<Rightarrow> (spaced [ascii ''New'', ascii ''York'', ascii ''5''] [ascii '' '', ascii '' ''], 3))"
    using w by (rule rb)
  moreover have "[] @ spaced [ascii ''New'', ascii ''York'', ascii ''5''] [ascii '' '', ascii '' ''] @ []
        = ascii ''New York 5''"
      "spaced (butlast [ascii ''New'', ascii ''York'', ascii ''5''])
         (replicate (length [ascii ''New'', ascii ''York'', ascii ''5''] - 2) [32]) = ascii ''New York''"
      "last [ascii ''New'', ascii ''York'', ascii ''5''] = ascii ''5''"
      "1 < length [ascii ''New'', ascii ''York'', ascii ''5'']"
    by (simp_all add: ascii_def)
  ultimately have 2: "parse_input (ascii ''New York 5'') = Inr (ascii ''New York'', 5)"
    by (simp add: m5 p5)
  have n: "ascii ''article'' \<in> set count_nouns"
    by (simp add: count_nouns_def)
  have l: "list_all2 same_letter (ascii ''Articles'') (ascii ''articles'')"
    by (simp add: same_letter_def ascii_def)
  have "ascii ''5'' \<noteq> [] \<and> list_all is_digit (ascii ''5'')
     \<and> (\<exists>ws tail ws'. ascii ''5 Articles'' = ascii ''5'' @ ws @ tail @ ws'
           \<and> list_all is_space ws \<and> list_all is_space ws'
           \<and> (tail = [] \<or> (\<exists>noun \<in> set count_nouns. list_all2 same_letter tail noun)))"
  proof (intro conjI)
    show "\<exists>ws tail ws'. ascii ''5 Articles'' = ascii ''5'' @ ws @ tail @ ws'
           \<and> list_all is_space ws \<and> list_all is_space ws'
           \<and> (tail = [] \<or> (\<exists>noun \<in> set count_nouns. list_all2 same_letter tail noun))"
      using l
      by (intro exI [of _ "ascii '' ''"] exI [of _ "ascii ''Articles''"] exI [of _ "[]"])
        (auto simp: count_nouns_def ascii_def is_space_def)
  qed (simp_all add: ascii_def is_digit_def)
  then have 3: "match_count (ascii ''5 Articles'') = Some (ascii ''5'')"
    by (rule rc [THEN iffD2])
  have "ascii ''5'' \<noteq> [] \<and> list_all is_digit (ascii ''5'')"
    by (simp add: ascii_def is_digit_def)
  then have 4: "parse_input (ascii ''5'') = Inr (ascii ''5'', 3)"
    by (rule rd)
  have 5: "(1::nat) \<le> 5 \<and> (5::nat) \<le> 20"
    using re by (rule rg)
  from k 1 2 3 4 5 show ?thesis
    by (intro conjI) simp_all
qed

text \<open>
  C6, as the source has it. \<open>handleSearch\<close> switches to the Active view, resets the page of
  History and clears the current task, its status and its results \<^emph>\<open>before\<close> it calls
  \<open>createSearchTask\<close>; a failure of that call only sets the error and \<open>isLoading\<close>.
  Counterexample: a user who looks at the results of a finished job in the History view
  submits \<open>Rome, 2\<close> while the backend is down.
\<close>

theorem C6_state_reset_counterexample:
  "taskId viewing_state = Some (ascii ''a'')
   \<and> taskId (fst (handleSearch viewing_state failing_network)) = None
   \<and> status viewing_state = Some (ascii ''completed'')
   \<and> status (fst (handleSearch viewing_state failing_network)) = None
   \<and> results viewing_state = [example_result]
   \<and> results (fst (handleSearch viewing_state failing_network)) = []
   \<and> activeView viewing_state = HistoryView
   \<and> activeView (fst (handleSearch viewing_state failing_network)) = ActiveView"
  by (simp add: handleSearch_def in_progress_def viewing_state_def failing_network_def
      initial_state_def parse_eval)

text \<open>
  C6, amended. When \<open>create()\<close> fails during a submission, the error is surfaced (a
  non-empty message), no poller runs afterwards and no request other than the failed
  create is issued; the Active list, History, the removal ledger and the input text are
  left unchanged, while the view is switched to Active, the page of History is reset to 1
  and the current task id, its keyword, the displayed status and the results are cleared.
\<close>

theorem C6_create_failure:
  assumes "\<not> in_progress st" and "parse_input (keyword st) = Inr (kw, n)"
    and "create_response net = Inl err"
  shows "handleSearch st net =
           (st\<lparr>activeView := ActiveView, historyPage := 1, isLoading := False,
               error := Some (error_text err (ascii ''Failed to create search task'')),
               status := None, results := [], taskId := None, taskKeyword := None,
               pollingInterval := None\<rparr>,
            [CreateSearchTask kw n])
       \<and> error_text err (ascii ''Failed to create search task'') \<noteq> []
       \<and> pollingInterval (fst (handleSearch st net)) = None
       \<and> list_all (\<lambda>c. c = CreateSearchTask kw n) (snd (handleSearch st net))
       \<and> activeTasks (fst (handleSearch st net)) = activeTasks st
       \<and> historyTasks (fst (handleSearch st net)) = historyTasks st
       \<and> removedTaskIds (fst (handleSearch st net)) = removedTaskIds st
       \<and> keyword (fst (handleSearch st net)) = keyword st"
proof -
  have "error_text err (ascii ''Failed to create search task'') \<noteq> []"
    by (intro error_text_nonempty) (simp add: ascii_def)
  then show ?thesis
    by (simp add: submit_create_failed [OF assms])
qed

theorem C6_create_failure_witness:
  "\<not> in_progress viewing_state
   \<and> parse_input (keyword viewing_state) = Inr (ascii ''Rome'', 2)
   \<and> create_response failing_network = Inl network_error
   \<and> error (fst (handleSearch viewing_state failing_network)) = Some (ascii ''Network Error'')
   \<and> snd (handleSearch viewing_state failing_network) = [CreateSearchTask (ascii ''Rome'') 2]
   \<and> historyTasks (fst (handleSearch viewing_state failing_network))
       = [example_task ''a'' ''completed'' 0]"
proof -
  have a: "\<not> in_progress viewing_state"
    by (simp add: in_progress_def viewing_state_def initial_state_def ascii_def)
  have b: "parse_input (keyword viewing_state) = Inr (ascii ''Rome'', 2)"
    by (simp add: viewing_state_def initial_state_def parse_eval)
  have c: "create_response failing_network = Inl network_error"
    by (simp add: failing_network_def)
  have d: "error_text network_error (ascii ''Failed to create search task'') = ascii ''Network Error''"
    by (simp add: error_text_def or_else_def network_error_def ascii_def)
  have e: "historyTasks viewing_state = [example_task ''a'' ''completed'' 0]"
    by (simp add: viewing_state_def)
  show ?thesis
    using a b c C6_create_failure [OF a b c]
    by (simp add: d e)
qed

text \<open>
  C7 asks that the page count is \<open>max(1, ceil(N/3))\<close>, that the current page is within
  \<open>[1, pageCount]\<close> after any change of the length of History, and that next and previous
  saturate. The effect that resets the page tests the page only when History is not empty
  (and the History view is shown). Failing run: the History view is opened while History
  is empty, a pass fills History with four jobs, the user goes to page 2, and the next
  pass of the same timer empties History. The page is still 2 and the page count is 1.
\<close>

theorem C7_page_above_count_after_shrink:
  "activeView run_paged = HistoryView
   \<and> length (historyTasks run_paged) = 4
   \<and> historyPage run_paged = 2
   \<and> historyTasks run_emptied = []
   \<and> historyPage run_emptied = 2
   \<and> max 1 \<lceil>real (length (historyTasks run_emptied)) / 3\<rceil> = (1::int)"
proof -
  have o: "run_opened = initial_state\<lparr>activeView := HistoryView, historyPage := 1\<rparr>"
    by (simp add: run_opened_def open_history_def)
  have h: "sort_newest_first four_finished = four_finished"
    unfolding sort_newest_first_def
    by (rule sort_key_id_if_sorted) (simp add: four_finished_def example_task_def)
  have "build_history [] {} 1000 four_finished = sort_newest_first four_finished"
    by (simp add: build_history_def set_each_def stuckTasks_def stuck_pred_def
        is_in_flight_def is_terminal_def map_values_def four_finished_def
        example_task_def ascii_def)
  then have b: "build_history [] {} 1000 four_finished = four_finished"
    by (simp only: h)
  have a: "filter (active_pred {} 1000) four_finished = []"
    by (simp add: active_pred_def is_in_flight_def four_finished_def example_task_def ascii_def)
  have n: "length four_finished = 4"
    by (simp add: four_finished_def)
  have f: "run_filled = initial_state\<lparr>activeView := HistoryView, historyPage := 1,
             activeTasks := [], historyTasks := four_finished\<rparr>"
    by (simp add: run_filled_def o loadTasks_def tasks_of_payload_def initial_state_def a b n
        reset_page_effect_def ceil_div3_eq)
  have p: "run_paged = initial_state\<lparr>activeView := HistoryView, historyPage := 2,
             activeTasks := [], historyTasks := four_finished\<rparr>"
    by (simp add: run_paged_def f next_page_def pager_shown_def ceil_div3_eq n)
  have e: "run_emptied = initial_state\<lparr>activeView := HistoryView, historyPage := 2,
             activeTasks := [], historyTasks := []\<rparr>"
    by (simp add: run_emptied_def o p loadTasks_def tasks_of_payload_def initial_state_def
        build_history_def set_each_def stuckTasks_def map_values_def sort_newest_first_def
        reset_page_effect_def)
  show ?thesis
    by (simp add: p e n)
qed

text \<open>
  C8. When the \<open>get()\<close> of a poll fails, the interval timer is cancelled, the error is
  surfaced (a non-empty message), the displayed status and the entries of Active and
  History are left as they are, and the step issues nothing but the failed request: no
  retry and no reload.
\<close>

theorem C8_poll_error:
  assumes "get_response net = Inl err"
  shows "pollTaskStatus render st i net =
           (st\<lparr>pollingInterval := None, isLoading := False,
               error := Some (error_text err (ascii ''Failed to fetch task status''))\<rparr>,
            [GetSearchTask i])
       \<and> error_text err (ascii ''Failed to fetch task status'') \<noteq> []
       \<and> pollingInterval (fst (pollTaskStatus render st i net)) = None
       \<and> status (fst (pollTaskStatus render st i net)) = status st
       \<and> activeTasks (fst (pollTaskStatus render st i net)) = activeTasks st
       \<and> historyTasks (fst (pollTaskStatus render st i net)) = historyTasks st
       \<and> taskId (fst (pollTaskStatus render st i net)) = taskId st"
proof -
  have "error_text err (ascii ''Failed to fetch task status'') \<noteq> []"
    by (intro error_text_nonempty) (simp add: ascii_def)
  then show ?thesis
    by (simp add: poll_error [OF assms])
qed

theorem C8_poll_error_witness:
  "get_response failing_network = Inl network_error
   \<and> pollingInterval polling_state = Some (ascii ''a'')
   \<and> pollingInterval (fst (pollTaskStatus initial_state polling_state (ascii ''a'') failing_network)) = None
   \<and> error (fst (pollTaskStatus initial_state polling_state (ascii ''a'') failing_network))
       = Some (ascii ''Network Error'')
   \<and> status (fst (pollTaskStatus initial_state polling_state (ascii ''a'') failing_network))
       = Some (ascii ''processing'')
   \<and> snd (pollTaskStatus initial_state polling_state (ascii ''a'') failing_network) = [GetSearchTask (ascii ''a'')]"
proof -
  have g: "get_response failing_network = Inl network_error"
    by (simp add: failing_network_def)
  have d: "error_text network_error (ascii ''Failed to fetch task status'') = ascii ''Network Error''"
    by (simp add: error_text_def or_else_def network_error_def ascii_def)
  have p: "pollingInterval polling_state = Some (ascii ''a'')"
       "status polling_state = Some (ascii ''processing'')"
    by (simp_all add: polling_state_def)
  show ?thesis
    using g C8_poll_error [OF g, of initial_state polling_state "ascii ''a''"]
    by (simp add: d p)
qed




text \<open>
  C10. The parsed keyword is empty exactly when the trimmed input begins with a comma
  (as \<open>, 5\<close> does). A submission of such an input, when no search is in progress, shows the
  validation error, issues no request at all and leaves the rest of the state as it is.
\<close>

theorem C10_empty_keyword:
  "(parse_input raw = Inl EnterValidKeyword \<longleftrightarrow> (\<exists>rest. trim raw = comma # rest))
   \<and> (\<not> in_progress st \<and> parse_input (keyword st) = Inl EnterValidKeyword \<longrightarrow>
        handleSearch st net = (st\<lparr>error := Some (ascii ''Please enter a valid keyword'')\<rparr>, [])
        \<and> list_all (\<lambda>c. \<not> is_write c) (snd (handleSearch st net)))"
  using parse_empty_keyword_iff [of raw] submit_invalid [of st EnterValidKeyword net]
  by simp

theorem C10_empty_keyword_witness:
  "trim (ascii '', 5'') = comma # ascii '' 5''
   \<and> \<not> in_progress (viewing_state\<lparr>keyword := ascii '', 5''\<rparr>)
   \<and> parse_input (keyword (viewing_state\<lparr>keyword := ascii '', 5''\<rparr>)) = Inl EnterValidKeyword
   \<and> handleSearch (viewing_state\<lparr>keyword := ascii '', 5''\<rparr>) failing_network
       = (viewing_state\<lparr>keyword := ascii '', 5'',
            error := Some (ascii ''Please enter a valid keyword'')\<rparr>, [])"
proof -
  let ?st = "viewing_state\<lparr>keyword := ascii '', 5''\<rparr>"
  have t: "trim (ascii '', 5'') = comma # ascii '' 5''"
    by (simp add: parse_eval)
  have a: "\<not> in_progress ?st"
    by (simp add: in_progress_def viewing_state_def initial_state_def ascii_def)
  have p: "parse_input (keyword ?st) = Inl EnterValidKeyword"
    using t C10_empty_keyword [of "ascii '', 5''" ?st failing_network] by auto
  then have "handleSearch ?st failing_network
       = (?st\<lparr>error := Some (ascii ''Please enter a valid keyword'')\<rparr>, [])"
    using a C10_empty_keyword [of "ascii '', 5''" ?st failing_network] by blast
  with t a p show ?thesis
    by simp
qed

end
